theory Spec2Isabelle
  imports Complex_Main "HOL-Library.Multiset"
begin

section \<open>SraMetaGo: the batch pipeline and the record extractor of main.go\<close>

text \<open>
  A shallow embedding of \<^verbatim>\<open>main.go\<close>. Go strings are byte strings and are modelled as
  \<^typ>\<open>string\<close>; slices are lists; a struct is a record whose fields carry a short prefix
  where two structs of the source share a field name. The \<^verbatim>\<open>XMLName\<close> fields, which only
  steer the XML decoder, are left out.
\<close>

subsection \<open>Data model (lines 42-155)\<close>

record externalID =
  ext_Namespace :: string
  ext_Value :: string

record studyRef =
  ExternalIDs :: "externalID list"

record LibraryDescriptor =
  Strategy :: string
  Source :: string
  Selection :: string

record Experiment =
  exp_Accession :: string
  exp_Title :: string
  Library :: LibraryDescriptor
  Study :: studyRef
  BioProject :: string

record Identifier =
  id_Namespace :: string
  id_Value :: string

record SampleAttribute =
  Tag :: string
  attr_Value :: string

record Sample =
  smp_Accession :: string
  Identifiers :: "Identifier list"
  Attributes :: "SampleAttribute list"
  smp_Title :: string

record Run =
  run_Accession :: string
  TotalSpots :: string
  TotalBases :: string
  run_LoadDate :: string
  run_ReleaseDate :: string

record RunSet =
  Runs :: "Run list"

record Platform =
  Instrument :: string

record Organization =
  org_Name :: string
  org_Type :: string

record ExperimentPackage =
  pkg_Experiment :: Experiment
  pkg_Sample :: Sample
  pkg_RunSet :: RunSet
  pkg_Platform :: Platform
  pkg_Organization :: Organization
  pkg_ReleaseDate :: string
  pkg_LoadDate :: string

record ExperimentPackageSet =
  Packages :: "ExperimentPackage list"

definition batchSize :: int where
  "batchSize = 100"

definition maxWorkers :: nat where
  "maxWorkers = 10"

definition maxRetries :: nat where
  "maxRetries = 7"

subsection \<open>The two functions of Go's \<^verbatim>\<open>strings\<close> package that the program calls\<close>

text \<open>
  \<^verbatim>\<open>strings.TrimSpace\<close> and \<^verbatim>\<open>strings.EqualFold\<close> belong to the Go standard library.
  Both run a byte loop while the input is ASCII and hand over to a rune loop, which reads the
  Unicode tables, at the first byte \<open>\<ge> 0x80\<close> (\<^verbatim>\<open>utf8.RuneSelf\<close>). The byte loops are
  written out below as the library has them; the rune loops are parameters, collected in
  the record \<open>unicode_paths\<close>, so that every result below holds for whatever the tables say.
\<close>

record unicode_paths =
  TrimFunc_IsSpace :: "string \<Rightarrow> string"
  TrimRightFunc_IsSpace :: "string \<Rightarrow> string"
  EqualFold_hasUnicode :: "string \<Rightarrow> string \<Rightarrow> bool"

definition byte :: "char \<Rightarrow> nat" where
  "byte c = of_char c"

definition RuneSelf :: "char \<Rightarrow> bool" where
  "RuneSelf c = (128 \<le> byte c)"

definition asciiSpace :: "char \<Rightarrow> bool" where
  "asciiSpace c = (byte c = 9 \<or> byte c = 10 \<or> byte c = 11 \<or> byte c = 12 \<or> byte c = 13 \<or> byte c = 32)"

text \<open>The second loop of \<^verbatim>\<open>TrimSpace\<close>, from the right end; the argument is reversed.\<close>

fun TrimSpace_stop :: "unicode_paths \<Rightarrow> string \<Rightarrow> string" where
  "TrimSpace_stop U [] = []"
| "TrimSpace_stop U (c # r) =
     (if RuneSelf c then TrimRightFunc_IsSpace U (rev (c # r))
      else if asciiSpace c then TrimSpace_stop U r
      else rev (c # r))"

fun TrimSpace :: "unicode_paths \<Rightarrow> string \<Rightarrow> string" where
  "TrimSpace U [] = []"
| "TrimSpace U (c # s) =
     (if RuneSelf c then TrimFunc_IsSpace U (c # s)
      else if asciiSpace c then TrimSpace U s
      else TrimSpace_stop U (rev (c # s)))"

fun EqualFold :: "unicode_paths \<Rightarrow> string \<Rightarrow> string \<Rightarrow> bool" where
  "EqualFold U (sr # s) (tr # t) =
     (if RuneSelf sr \<or> RuneSelf tr then EqualFold_hasUnicode U (sr # s) (tr # t)
      else if tr = sr then EqualFold U s t
      else (let lo = (if byte tr < byte sr then tr else sr);
                hi = (if byte tr < byte sr then sr else tr)
            in if 65 \<le> byte lo \<and> byte lo \<le> 90 \<and> byte hi = byte lo + 32
               then EqualFold U s t else False))"
| "EqualFold U [] t = (t = [])"
| "EqualFold U s [] = (s = [])"

subsection \<open>Lookups (lines 157-175)\<close>

fun extractSampleValue :: "unicode_paths \<Rightarrow> SampleAttribute list \<Rightarrow> string \<Rightarrow> string" where
  "extractSampleValue U [] key = []"
| "extractSampleValue U (attr # attrs) key =
     (if EqualFold U (Tag attr) key then attr_Value attr else extractSampleValue U attrs key)"

fun extractIdentifier :: "Identifier list \<Rightarrow> string \<Rightarrow> string" where
  "extractIdentifier [] ns = []"
| "extractIdentifier (i # ids) ns =
     (if id_Namespace i = ns then id_Value i else extractIdentifier ids ns)"

subsection \<open>Experiment.UnmarshalXML (lines 85-101)\<close>

text \<open>
  The decoder fills \<open>aux\<close>; the field \<open>BioProject\<close> is tagged \<^verbatim>\<open>xml:"-"\<close>, so it still has
  its zero value when the scan of the external identifiers starts. The scan stops at the
  first identifier whose namespace is \<^verbatim>\<open>BioProject\<close>.
\<close>

fun scan_ExternalIDs :: "unicode_paths \<Rightarrow> externalID list \<Rightarrow> string \<Rightarrow> string" where
  "scan_ExternalIDs U [] bp = bp"
| "scan_ExternalIDs U (ex # exs) bp =
     (if ext_Namespace ex = ''BioProject'' then TrimSpace U (ext_Value ex)
      else scan_ExternalIDs U exs bp)"

definition UnmarshalXML :: "unicode_paths \<Rightarrow> Experiment \<Rightarrow> Experiment" where
  "UnmarshalXML U aux =
     (let e = aux\<lparr>BioProject := []\<rparr>
      in e\<lparr>BioProject := scan_ExternalIDs U (ExternalIDs (Study e)) (BioProject e)\<rparr>)"

subsection \<open>chunkIDs (lines 217-223)\<close>

text \<open>
  The loop of \<^verbatim>\<open>chunkIDs\<close> does not end when \<open>size = 0\<close> and the slice is not empty, and
  the slice expression \<^verbatim>\<open>ids[size:]\<close> panics when \<open>size < 0\<close>. The model returns \<open>None\<close>
  where the loop runs forever and \<open>Inl\<close> where it panics.
\<close>

datatype panic = SliceBoundsOutOfRange

partial_function (option) chunkIDs_loop ::
  "string list \<Rightarrow> int \<Rightarrow> string list list \<Rightarrow> (panic + string list list) option" where
  "chunkIDs_loop ids sz chunks =
     (if sz < int (length ids)
      then (if sz < 0 then Some (Inl SliceBoundsOutOfRange)
            else chunkIDs_loop (drop (nat sz) ids) sz (chunks @ [take (nat sz) ids]))
      else Some (Inr (chunks @ [ids])))"

declare chunkIDs_loop.simps [code]

definition chunkIDs :: "string list \<Rightarrow> int \<Rightarrow> (panic + string list list) option" where
  "chunkIDs ids sz = chunkIDs_loop ids sz []"

subsection \<open>writePackage (lines 225-274)\<close>

text \<open>
  \<^verbatim>\<open>fmt.Sprintf\<close> for the one verb the program uses, \<^verbatim>\<open>%s\<close> with string operands. The
  file behind \<^verbatim>\<open>tsv\<close> is the string of the bytes written so far; the program ignores the
  results of \<^verbatim>\<open>WriteString\<close>, and the model takes every write to succeed.
\<close>

fun Sprintf :: "string \<Rightarrow> string list \<Rightarrow> string" where
  "Sprintf (c # d # f) args =
     (if c = CHR ''%'' \<and> d = CHR ''s''
      then (case args of
              [] \<Rightarrow> ''%!s(MISSING)'' @ Sprintf f []
            | a # as \<Rightarrow> a @ Sprintf f as)
      else c # Sprintf (d # f) args)"
| "Sprintf f args = f"

definition WriteString :: "string \<Rightarrow> string \<Rightarrow> string" where
  "WriteString tsv s = tsv @ s"

definition TAB :: string where
  "TAB = [CHR 0x09]"

definition NL :: string where
  "NL = [CHR 0x0A]"

definition row_format :: string where
  "row_format = ''%s'' @ TAB @ ''%s'' @ TAB @ ''%s'' @ TAB @ ''%s'' @ TAB @ ''%s'' @ TAB @
                ''%s'' @ TAB @ ''%s'' @ TAB @ ''%s'' @ TAB @ ''%s'' @ TAB @ ''%s'' @ NL"

text \<open>The values computed before the loop over the runs (lines 229-251).\<close>

record package_values =
  v_biosample :: string
  v_bioproject :: string
  v_collDate :: string
  v_geoLoc :: string
  v_pop :: string
  v_submitter :: string

definition resolve_package :: "unicode_paths \<Rightarrow> ExperimentPackage \<Rightarrow> package_values" where
  "resolve_package U pkg =
     (let exp = pkg_Experiment pkg;
          sample = pkg_Sample pkg;
          biosample = extractIdentifier (Identifiers sample) ''BioSample'';
          bioproject = BioProject exp;
          bioproject =
            (if bioproject = []
             then (let bioproject = extractIdentifier (Identifiers sample) ''BioProject''
                   in if bioproject = []
                      then extractSampleValue U (Attributes sample) ''bioproject''
                      else bioproject)
             else bioproject);
          collDate = extractSampleValue U (Attributes sample) ''collection_date'';
          geoLoc = extractSampleValue U (Attributes sample) ''geo_loc_name'';
          pop = extractSampleValue U (Attributes sample) ''ww_population'';
          submitter = org_Name (pkg_Organization pkg);
          submitter =
            (if submitter = []
             then (let submitter = extractSampleValue U (Attributes sample) ''submitter''
                   in if submitter = []
                      then (let submitter = extractSampleValue U (Attributes sample) ''submitted_by''
                            in if submitter = []
                               then extractSampleValue U (Attributes sample) ''center_name''
                               else submitter)
                      else submitter)
             else submitter)
      in \<lparr>v_biosample = biosample, v_bioproject = bioproject, v_collDate = collDate,
          v_geoLoc = geoLoc, v_pop = pop, v_submitter = submitter\<rparr>)"

text \<open>One turn of the loop over the runs (lines 254-272): the ten operands, then the write.\<close>

definition run_operands :: "package_values \<Rightarrow> ExperimentPackage \<Rightarrow> Run \<Rightarrow> string list" where
  "run_operands v pkg run =
     (let releaseDate = run_ReleaseDate run;
          loadDate = run_LoadDate run;
          releaseDate = (if releaseDate = [] then pkg_ReleaseDate pkg else releaseDate);
          loadDate = (if loadDate = [] then pkg_LoadDate pkg else loadDate)
      in [run_Accession run, v_bioproject v, v_biosample v, v_submitter v, v_collDate v,
          v_geoLoc v, v_pop v, TotalSpots run, releaseDate, loadDate])"

definition write_run :: "package_values \<Rightarrow> ExperimentPackage \<Rightarrow> string \<Rightarrow> Run \<Rightarrow> string" where
  "write_run v pkg tsv run = WriteString tsv (Sprintf row_format (run_operands v pkg run))"

definition writePackage :: "unicode_paths \<Rightarrow> ExperimentPackage \<Rightarrow> string \<Rightarrow> string" where
  "writePackage U pkg tsv =
     foldl (write_run (resolve_package U pkg) pkg) tsv (Runs (pkg_RunSet pkg))"

definition header_line :: string where
  "header_line = ''RunAccession'' @ TAB @ ''BioProject'' @ TAB @ ''BioSample'' @ TAB @
                 ''Submitter'' @ TAB @ ''CollectionDate'' @ TAB @ ''Location'' @ TAB @
                 ''Population'' @ TAB @ ''TotalSpots'' @ TAB @ ''ReleaseDate'' @ TAB @
                 ''LoadDate'' @ NL"

text \<open>The end of \<^verbatim>\<open>main\<close> (lines 376-382): the header, then every package of every
  package set drained from the results channel.\<close>

definition write_results :: "unicode_paths \<Rightarrow> ExperimentPackageSet list \<Rightarrow> string" where
  "write_results U results =
     foldl (\<lambda>tsv pkgSet. foldl (\<lambda>tsv pkg. writePackage U pkg tsv) tsv (Packages pkgSet))
       (WriteString [] header_line) results"

subsection \<open>The Fetch-Retry Worker (lines 339-362)\<close>

text \<open>
  A Go \<^verbatim>\<open>error\<close> is modelled by its message. The network is an oracle: \<open>fetch attempt\<close> is
  what the call of \<^verbatim>\<open>fetchBatch\<close> of that attempt returns, \<open>Inl\<close> an error (of the transport
  or of the XML decoder) and \<open>Inr\<close> the decoded package set. The worker is the list of the
  actions it performs, in order; the two deferred calls come last. The sleep is
  \<open>2 ^ attempt\<close> seconds: \<^verbatim>\<open>math.Pow(2, float64(attempt))\<close> is exact for \<open>attempt < 7\<close>.
\<close>

type_synonym error = string

type_synonym fetch_result = "error + ExperimentPackageSet"

datatype message = Retrying_batch_after nat | Failed_batch_after_retries "error option"

datatype event =
    Sleep nat
  | Fetch nat
  | Print message
  | Send ExperimentPackageSet
  | AddCompleted
  | RecvSem
  | WgDone

function worker_loop :: "(nat \<Rightarrow> fetch_result) \<Rightarrow> nat \<Rightarrow> error option \<Rightarrow> event list" where
  "worker_loop fetch attempt err =
     (if attempt < maxRetries
      then (if 0 < attempt
            then Sleep (2 ^ attempt) #
                 (if 5 < attempt then [Print (Retrying_batch_after (2 ^ attempt))] else [])
            else []) @
           Fetch attempt #
           (case fetch attempt of
              Inr pkgSet \<Rightarrow> [Send pkgSet, AddCompleted]
            | Inl e \<Rightarrow> worker_loop fetch (attempt + 1) (Some e))
      else [Print (Failed_batch_after_retries err)])"
  by pat_completeness auto
termination
  by (relation "measure (\<lambda>(fetch, attempt, err). maxRetries - attempt)") auto

declare worker_loop.simps [simp del]

definition worker :: "(nat \<Rightarrow> fetch_result) \<Rightarrow> event list" where
  "worker fetch = worker_loop fetch 0 None @ [RecvSem, WgDone]"

subsection \<open>The concurrent part of main (lines 302-382)\<close>

text \<open>
  The goroutines of a run: \<open>main\<close>, the progress monitor, and one worker for each batch
  already started. A step is one action of one of them; a schedule is the list of the
  goroutines that move, in order. \<open>step\<close> is \<open>None\<close> where the chosen goroutine is blocked
  or has ended. The counters \<open>completed\<close>, \<open>total\<close> and \<open>last\<close> are \<^verbatim>\<open>int32\<close> in the source and
  integers here, which is exact below \<open>2 ^ 31\<close> batches.
\<close>

record config =
  unicode :: unicode_paths
  batches :: "string list list"
  fetchBatch :: "nat \<Rightarrow> nat \<Rightarrow> fetch_result"
  os_Create_ok :: bool

definition total :: "config \<Rightarrow> int" where
  "total cfg = int (length (batches cfg))"

datatype main_pc =
    M_Loop nat
  | M_SendSem nat
  | M_Go nat
  | M_Wait
  | M_Finish
  | M_Close
  | M_Create
  | M_Done
  | M_Fatal

record state =
  pc :: main_pc
  wg :: int
  sem :: nat
  workers :: "event list list"
  results :: "ExperimentPackageSet list"
  completed :: int
  stderr :: "message list"
  mon_last :: int
  mon_done :: bool
  progress :: "int list"
  bar_finished :: bool
  tsv_file :: "string option"

datatype goroutine = Main | Monitor | Worker nat

definition init :: state where
  "init = \<lparr>pc = M_Loop 0, wg = 0, sem = 0, workers = [], results = [], completed = 0,
           stderr = [], mon_last = 0, mon_done = False, progress = [],
           bar_finished = False, tsv_file = None\<rparr>"

definition exited :: "state \<Rightarrow> bool" where
  "exited s = (pc s = M_Done \<or> pc s = M_Fatal)"

text \<open>\<open>main\<close>: the dispatch loop (lines 335-363), then lines 365-382.\<close>

fun main_step :: "config \<Rightarrow> state \<Rightarrow> state option" where
  "main_step cfg s =
     (case pc s of
        M_Loop i \<Rightarrow>
          if i < length (batches cfg)
          then Some (s\<lparr>wg := wg s + 1, pc := M_SendSem i\<rparr>)
          else Some (s\<lparr>pc := M_Wait\<rparr>)
      | M_SendSem i \<Rightarrow>
          if sem s < maxWorkers then Some (s\<lparr>sem := sem s + 1, pc := M_Go i\<rparr>) else None
      | M_Go i \<Rightarrow>
          Some (s\<lparr>workers := workers s @ [worker (fetchBatch cfg i)], pc := M_Loop (i + 1)\<rparr>)
      | M_Wait \<Rightarrow> if wg s = 0 then Some (s\<lparr>pc := M_Finish\<rparr>) else None
      | M_Finish \<Rightarrow> Some (s\<lparr>bar_finished := True, pc := M_Close\<rparr>)
      | M_Close \<Rightarrow> Some (s\<lparr>pc := M_Create\<rparr>)
      | M_Create \<Rightarrow>
          if os_Create_ok cfg
          then Some (s\<lparr>tsv_file := Some (write_results (unicode cfg) (results s)), pc := M_Done\<rparr>)
          else Some (s\<lparr>pc := M_Fatal\<rparr>)
      | M_Done \<Rightarrow> None
      | M_Fatal \<Rightarrow> None)"

text \<open>One turn of the loop of the monitor (lines 315-328).\<close>

definition monitor_step :: "config \<Rightarrow> state \<Rightarrow> state" where
  "monitor_step cfg s =
     (let done = completed s;
          s = (if mon_last s < done then s\<lparr>progress := progress s @ [done], mon_last := done\<rparr>
               else s)
      in if total cfg \<le> done then s\<lparr>mon_done := True\<rparr> else s)"

fun apply_event :: "config \<Rightarrow> event \<Rightarrow> state \<Rightarrow> state option" where
  "apply_event cfg (Sleep d) s = Some s"
| "apply_event cfg (Fetch a) s = Some s"
| "apply_event cfg (Print m) s = Some (s\<lparr>stderr := stderr s @ [m]\<rparr>)"
| "apply_event cfg (Send pkgSet) s =
     (if length (results s) < length (batches cfg)
      then Some (s\<lparr>results := results s @ [pkgSet]\<rparr>) else None)"
| "apply_event cfg AddCompleted s = Some (s\<lparr>completed := completed s + 1\<rparr>)"
| "apply_event cfg RecvSem s = (if 0 < sem s then Some (s\<lparr>sem := sem s - 1\<rparr>) else None)"
| "apply_event cfg WgDone s = Some (s\<lparr>wg := wg s - 1\<rparr>)"

fun step :: "config \<Rightarrow> goroutine \<Rightarrow> state \<Rightarrow> state option" where
  "step cfg Main s = main_step cfg s"
| "step cfg Monitor s =
     (if mon_done s \<or> exited s then None else Some (monitor_step cfg s))"
| "step cfg (Worker j) s =
     (if j < length (workers s) \<and> \<not> exited s
      then (case workers s ! j of
              [] \<Rightarrow> None
            | ev # rest \<Rightarrow>
                (case apply_event cfg ev s of
                   None \<Rightarrow> None
                 | Some s' \<Rightarrow> Some (s'\<lparr>workers := (workers s')[j := rest]\<rparr>)))
      else None)"

fun run :: "config \<Rightarrow> goroutine list \<Rightarrow> state \<Rightarrow> state option" where
  "run cfg [] s = Some s"
| "run cfg (g # gs) s = (case step cfg g s of None \<Rightarrow> None | Some s' \<Rightarrow> run cfg gs s')"

text \<open>The workers that hold a slot of the semaphore: started, and the deferred receive
  from \<open>sem\<close> still ahead.\<close>

definition in_flight :: "state \<Rightarrow> nat" where
  "in_flight s = length (filter (\<lambda>w. RecvSem \<in> set w) (workers s))"

definition always_fails :: "nat \<Rightarrow> fetch_result" where
  "always_fails attempt = Inl ''connection reset''"

definition succeeds_with :: "ExperimentPackageSet \<Rightarrow> nat \<Rightarrow> fetch_result" where
  "succeeds_with pkgSet attempt = Inr pkgSet"

text \<open>Projections of a list of actions: the attempts, the sleeps, the package sets
  deposited and the messages written to standard error, each in order.\<close>

fun fetches :: "event list \<Rightarrow> nat list" where
  "fetches [] = []"
| "fetches (Fetch a # evs) = a # fetches evs"
| "fetches (ev # evs) = fetches evs"

fun waits :: "event list \<Rightarrow> nat list" where
  "waits [] = []"
| "waits (Sleep d # evs) = d # waits evs"
| "waits (ev # evs) = waits evs"

fun sends :: "event list \<Rightarrow> ExperimentPackageSet list" where
  "sends [] = []"
| "sends (Send pkgSet # evs) = pkgSet # sends evs"
| "sends (ev # evs) = sends evs"

fun prints :: "event list \<Rightarrow> message list" where
  "prints [] = []"
| "prints (Print m # evs) = m # prints evs"
| "prints (ev # evs) = prints evs"

text \<open>What a worker does before the fetch of an attempt (lines 347-353).\<close>

definition before_attempt :: "nat \<Rightarrow> event list" where
  "before_attempt attempt =
     (if 0 < attempt
      then Sleep (2 ^ attempt) #
           (if 5 < attempt then [Print (Retrying_batch_after (2 ^ attempt))] else [])
      else [])"

subsection \<open>Notions of the specification used to state the properties\<close>

text \<open>The first non-empty string of a list of candidates, the empty string when there is none.\<close>

definition first_nonempty :: "string list \<Rightarrow> string" where
  "first_nonempty cs = (case filter (\<lambda>c. c \<noteq> []) cs of [] \<Rightarrow> [] | c # _ \<Rightarrow> c)"

text \<open>The experiment-level candidate: the text of the first external identifier of
  \<^verbatim>\<open>STUDY_REF\<close> whose namespace is \<^verbatim>\<open>BioProject\<close>, with surrounding white space removed.\<close>

definition study_BioProject :: "unicode_paths \<Rightarrow> Experiment \<Rightarrow> string" where
  "study_BioProject U aux =
     (case find (\<lambda>ex. ext_Namespace ex = ''BioProject'') (ExternalIDs (Study aux)) of
        None \<Rightarrow> [] | Some ex \<Rightarrow> TrimSpace U (ext_Value ex))"

definition ascii_lower :: "char \<Rightarrow> char" where
  "ascii_lower c = (if 65 \<le> byte c \<and> byte c \<le> 90 then char_of (byte c + 32) else c)"

text \<open>The rows of a package: the operands of the successive \<^verbatim>\<open>Sprintf\<close> calls.\<close>

definition package_rows :: "unicode_paths \<Rightarrow> ExperimentPackage \<Rightarrow> string list list" where
  "package_rows U pkg = map (run_operands (resolve_package U pkg) pkg) (Runs (pkg_RunSet pkg))"

text \<open>An instance of the rune loops for evaluation on ASCII input, where they are not reached.\<close>

definition no_unicode :: unicode_paths where
  "no_unicode = \<lparr>TrimFunc_IsSpace = (\<lambda>s. s), TrimRightFunc_IsSpace = (\<lambda>s. s),
                  EqualFold_hasUnicode = (\<lambda>s t. False)\<rparr>"

text \<open>The package of the end-to-end example of the specification.\<close>

definition example_aux :: Experiment where
  "example_aux =
     \<lparr>exp_Accession = [], exp_Title = [],
      Library = \<lparr>Strategy = [], Source = [], Selection = []\<rparr>,
      Study = \<lparr>ExternalIDs = [\<lparr>ext_Namespace = ''BioProject'', ext_Value = ''PRJNA000''\<rparr>]\<rparr>,
      BioProject = []\<rparr>"

definition example_package :: "unicode_paths \<Rightarrow> ExperimentPackage" where
  "example_package U =
     \<lparr>pkg_Experiment = UnmarshalXML U example_aux,
      pkg_Sample = \<lparr>smp_Accession = [],
        Identifiers = [\<lparr>id_Namespace = ''BioSample'', id_Value = ''SAMN000''\<rparr>],
        Attributes = [\<lparr>Tag = ''collection_date'', attr_Value = ''2024-01-01''\<rparr>],
        smp_Title = []\<rparr>,
      pkg_RunSet = \<lparr>Runs = [\<lparr>run_Accession = ''SRR000001'', TotalSpots = [], TotalBases = [],
        run_LoadDate = [], run_ReleaseDate = []\<rparr>]\<rparr>,
      pkg_Platform = \<lparr>Instrument = []\<rparr>,
      pkg_Organization = \<lparr>org_Name = ''ACME Lab'', org_Type = []\<rparr>,
      pkg_ReleaseDate = [], pkg_LoadDate = []\<rparr>"

text \<open>Two packages used as concrete inputs below.\<close>

definition both_package :: ExperimentPackage where
  "both_package =
     (example_package no_unicode)\<lparr>pkg_Sample :=
        \<lparr>smp_Accession = [],
         Identifiers = [\<lparr>id_Namespace = ''BioProject'', id_Value = ''PRJNA111''\<rparr>],
         Attributes = [\<lparr>Tag = ''BioProject'', attr_Value = ''PRJNA222''\<rparr>],
         smp_Title = []\<rparr>\<rparr>"

definition mixed_case_package :: ExperimentPackage where
  "mixed_case_package =
     (example_package no_unicode)\<lparr>pkg_Sample :=
        \<lparr>smp_Accession = [],
         Identifiers = [\<lparr>id_Namespace = ''biosample'', id_Value = ''SAMN111''\<rparr>,
                        \<lparr>id_Namespace = ''BioSample'', id_Value = ''SAMN222''\<rparr>],
         Attributes = [\<lparr>Tag = ''Geo_Loc_Name'', attr_Value = ''USA''\<rparr>,
                       \<lparr>Tag = ''COLLECTION_DATE'', attr_Value = ''2024-02-02''\<rparr>,
                       \<lparr>Tag = ''collection_date'', attr_Value = ''2024-03-03''\<rparr>],
         smp_Title = []\<rparr>\<rparr>"

text \<open>A run with a single batch whose fetch fails at every attempt.\<close>

definition one_failing_batch :: config where
  "one_failing_batch = \<lparr>unicode = no_unicode, batches = [[''1'']],
      fetchBatch = (\<lambda>i. always_fails), os_Create_ok = True\<rparr>"

text \<open>What the workers started so far still have ahead of them: receives from \<open>sem\<close>, calls of
  \<^verbatim>\<open>wg.Done\<close>, increments of \<open>completed\<close>, deposits; \<open>started cfg n\<close> are the first \<open>n\<close> workers as
  they are when \<open>main\<close> starts them.\<close>

definition slots :: "event list list \<Rightarrow> nat" where
  "slots ws = sum_list (map (\<lambda>w. count_list w RecvSem) ws)"

definition joins :: "event list list \<Rightarrow> nat" where
  "joins ws = sum_list (map (\<lambda>w. count_list w WgDone) ws)"

definition adds :: "event list list \<Rightarrow> nat" where
  "adds ws = sum_list (map (\<lambda>w. count_list w AddCompleted) ws)"

definition deposits :: "event list list \<Rightarrow> ExperimentPackageSet list" where
  "deposits ws = concat (map sends ws)"

definition started :: "config \<Rightarrow> nat \<Rightarrow> event list list" where
  "started cfg n = map (\<lambda>j. worker (fetchBatch cfg j)) [0..<n]"

text \<open>Where \<open>main\<close> stands: between the send to \<open>sem\<close> and the \<^verbatim>\<open>go\<close> statement it holds a slot for
  the worker to come, and between \<^verbatim>\<open>wg.Add\<close> and the \<^verbatim>\<open>go\<close> statement a unit of the wait group.\<close>

fun sem_held :: "main_pc \<Rightarrow> nat" where
  "sem_held (M_Go i) = 1"
| "sem_held p = 0"

fun wg_held :: "main_pc \<Rightarrow> nat" where
  "wg_held (M_SendSem i) = 1"
| "wg_held (M_Go i) = 1"
| "wg_held p = 0"

fun after_wait :: "main_pc \<Rightarrow> bool" where
  "after_wait (M_Loop i) = False"
| "after_wait (M_SendSem i) = False"
| "after_wait (M_Go i) = False"
| "after_wait M_Wait = False"
| "after_wait p = True"

fun pc_ok :: "nat \<Rightarrow> nat \<Rightarrow> main_pc \<Rightarrow> bool" where
  "pc_ok N n (M_Loop i) = (i = n \<and> n \<le> N)"
| "pc_ok N n (M_SendSem i) = (i = n \<and> n < N)"
| "pc_ok N n (M_Go i) = (i = n \<and> n < N)"
| "pc_ok N n p = (n = N)"

text \<open>The invariant of the controller: every worker is at some point of its own list of
  actions, and the shared variables account for the actions that are still ahead.\<close>

definition ctl_inv :: "config \<Rightarrow> state \<Rightarrow> bool" where
  "ctl_inv cfg s \<longleftrightarrow>
     pc_ok (length (batches cfg)) (length (workers s)) (pc s) \<and>
     (\<forall>j < length (workers s). \<exists>k. workers s ! j = drop k (worker (fetchBatch cfg j))) \<and>
     sem s = slots (workers s) + sem_held (pc s) \<and>
     sem s \<le> maxWorkers \<and>
     wg s = int (joins (workers s)) + int (wg_held (pc s)) \<and>
     completed s + int (adds (workers s)) = int (adds (started cfg (length (workers s)))) \<and>
     mset (results s) + mset (deposits (workers s)) =
       mset (deposits (started cfg (length (workers s)))) \<and>
     (after_wait (pc s) \<longrightarrow> (\<forall>w \<in> set (workers s). w = [])) \<and>
     (pc s = M_Done \<longrightarrow> tsv_file s = Some (write_results (unicode cfg) (results s)))"

text \<open>The workers whose next action is a network fetch.\<close>

fun at_fetch :: "event list \<Rightarrow> bool" where
  "at_fetch (Fetch a # evs) = True"
| "at_fetch evs = False"

definition fetching :: "state \<Rightarrow> nat" where
  "fetching s = length (filter at_fetch (workers s))"

text \<open>Concrete runs and schedules used as inputs below.\<close>

definition eleven_failing_batches :: config where
  "eleven_failing_batches = \<lparr>unicode = no_unicode, batches = replicate 11 [''1''],
      fetchBatch = (\<lambda>i. always_fails), os_Create_ok = True\<rparr>"

definition one_failing_schedule :: "goroutine list" where
  "one_failing_schedule =
     [Monitor, Main, Main, Main] @ replicate 17 (Worker 0) @ [Monitor] @ replicate 5 Main"

definition example_pkgSet :: ExperimentPackageSet where
  "example_pkgSet = \<lparr>Packages = [example_package no_unicode]\<rparr>"

definition many_ids :: "string list" where
  "many_ids = map (\<lambda>n. replicate n (CHR ''7'')) [1..<102]"





text \<open>The lines that the package sets of the results channel contribute to the file.\<close>

definition pkgSet_lines :: "unicode_paths \<Rightarrow> ExperimentPackageSet \<Rightarrow> string" where
  "pkgSet_lines U pkgSet =
     concat (map (\<lambda>pkg. concat (map (Sprintf row_format) (package_rows U pkg))) (Packages pkgSet))"

text \<open>A bound on the number of steps of \<open>main\<close> and of the workers that are still to come.\<close>

fun main_left :: "nat \<Rightarrow> main_pc \<Rightarrow> nat" where
  "main_left N (M_Loop i) = 3 * (N - i) + 6"
| "main_left N (M_SendSem i) = 3 * (N - i) + 5"
| "main_left N (M_Go i) = 3 * (N - i) + 4"
| "main_left N M_Wait = 5"
| "main_left N M_Finish = 4"
| "main_left N M_Close = 3"
| "main_left N M_Create = 2"
| "main_left N M_Done = 0"
| "main_left N M_Fatal = 0"

definition steps_left :: "config \<Rightarrow> state \<Rightarrow> nat" where
  "steps_left cfg s =
     main_left (length (batches cfg)) (pc s) +
     sum_list (map length (workers s)) +
     sum_list (map (\<lambda>i. length (worker (fetchBatch cfg i)))
                [length (workers s)..<length (batches cfg)])"

definition mixed_batches :: config where
  "mixed_batches = \<lparr>unicode = no_unicode, batches = [take 100 many_ids, drop 100 many_ids],
      fetchBatch = (\<lambda>i. if i = 0 then always_fails else succeeds_with example_pkgSet),
      os_Create_ok = True\<rparr>"

definition mixed_schedule :: "goroutine list" where
  "mixed_schedule =
     [Main, Main, Main] @ replicate 17 (Worker 0) @
     [Main, Main, Main] @ replicate 5 (Worker 1) @ replicate 5 Main"

section \<open>Properties\<close>

subsection \<open>The Batcher\<close>

lemma ceiling_step:
  fixes n s :: int
  assumes "0 < s" "s < n"
  shows "max 1 \<lceil>real_of_int (n - s) / real_of_int s\<rceil> + 1 = max 1 \<lceil>real_of_int n / real_of_int s\<rceil>"
proof -
  have a: "real_of_int (n - s) / real_of_int s = real_of_int n / real_of_int s - 1"
    using assms by (simp add: field_simps)
  have b: "1 \<le> \<lceil>real_of_int (n - s) / real_of_int s\<rceil>"
    using assms by (simp add: field_simps)
  show ?thesis using b unfolding a by simp
qed

lemma ceiling_small:
  fixes n s :: int
  assumes "0 < s" "0 \<le> n" "n \<le> s"
  shows "max 1 \<lceil>real_of_int n / real_of_int s\<rceil> = 1"
proof -
  have "real_of_int n / real_of_int s \<le> 1" using assms by (simp add: field_simps)
  then have "\<lceil>real_of_int n / real_of_int s\<rceil> \<le> 1" by (simp add: ceiling_le_iff)
  then show ?thesis by simp
qed

lemma chunkIDs_loop_correct:
  assumes "0 < sz"
  shows "\<exists>bs. chunkIDs_loop ids sz chunks = Some (Inr (chunks @ bs)) \<and> bs \<noteq> [] \<and>
            concat bs = ids \<and>
            int (length bs) = max 1 \<lceil>real (length ids) / real_of_int sz\<rceil> \<and>
            (\<forall>b \<in> set (butlast bs). int (length b) = sz)"
proof (induction "length ids" arbitrary: ids chunks rule: less_induct)
  case less
  show ?case
  proof (cases "sz < int (length ids)")
    case True
    let ?hd = "take (nat sz) ids" and ?tl = "drop (nat sz) ids"
    have shorter: "length ?tl < length ids" using True assms by simp
    from less [OF shorter, of "chunks @ [?hd]"] obtain bs where
      bs: "chunkIDs_loop ?tl sz (chunks @ [?hd]) = Some (Inr ((chunks @ [?hd]) @ bs))"
        "bs \<noteq> []" "concat bs = ?tl"
        "int (length bs) = max 1 \<lceil>real (length ?tl) / real_of_int sz\<rceil>"
        "\<forall>b \<in> set (butlast bs). int (length b) = sz"
      by blast
    have run: "chunkIDs_loop ids sz chunks = Some (Inr (chunks @ (?hd # bs)))"
      using True assms bs(1) by (subst chunkIDs_loop.simps) simp
    have len_hd: "int (length ?hd) = sz" using True assms by simp
    have len_tl: "int (length ?tl) = int (length ids) - sz" using True assms by simp
    have "real (length ?tl) = real_of_int (int (length ids) - sz)"
      using len_tl by (metis of_int_of_nat_eq)
    then have cnt: "int (length (?hd # bs)) = max 1 \<lceil>real (length ids) / real_of_int sz\<rceil>"
      using bs(4) ceiling_step [OF assms True] by simp
    have "concat (?hd # bs) = ids" using bs(3) by simp
    moreover have "\<forall>b \<in> set (butlast (?hd # bs)). int (length b) = sz"
      using bs(2,5) len_hd by simp
    ultimately show ?thesis using run cnt by blast
  next
    case False
    have run: "chunkIDs_loop ids sz chunks = Some (Inr (chunks @ [ids]))"
      using False by (subst chunkIDs_loop.simps) simp
    have "max 1 \<lceil>real_of_int (int (length ids)) / real_of_int sz\<rceil> = 1"
      using False assms by (intro ceiling_small) simp_all
    then have "int (length [ids]) = max 1 \<lceil>real (length ids) / real_of_int sz\<rceil>"
      by simp
    then show ?thesis using run by (intro exI [of _ "[ids]"]) simp
  qed
qed

text \<open>
  C3, as the code has it. For every identifier sequence of length \<open>N\<close> and every chunk size
  \<open>S > 0\<close>, \<open>chunkIDs\<close> returns, without panic, \<open>max 1 \<lceil>N / S\<rceil>\<close> batches: \<open>\<lceil>N / S\<rceil>\<close> of them
  when \<open>N > 0\<close> and a single empty batch when \<open>N = 0\<close>. Their concatenation is the input
  sequence, and every batch but the last has length \<open>S\<close>.
\<close>

theorem chunkIDs_batches:
  assumes "0 < sz"
  shows "\<exists>bs. chunkIDs ids sz = Some (Inr bs) \<and>
            concat bs = ids \<and>
            int (length bs) = max 1 \<lceil>real (length ids) / real_of_int sz\<rceil> \<and>
            (\<forall>b \<in> set (butlast bs). int (length b) = sz)"
  using chunkIDs_loop_correct [OF assms, of ids "[]"] unfolding chunkIDs_def by auto

theorem chunkIDs_batches_witness:
  "(0::int) < 2 \<and>
   (\<exists>bs. chunkIDs [''a'', ''b'', ''c''] 2 = Some (Inr bs) \<and>
      concat bs = [''a'', ''b'', ''c''] \<and>
      int (length bs) = max 1 \<lceil>real (length [''a'', ''b'', ''c'']) / real_of_int 2\<rceil> \<and>
      (\<forall>b \<in> set (butlast bs). int (length b) = 2)) \<and>
   chunkIDs [''a'', ''b'', ''c''] 2 = Some (Inr [[''a'', ''b''], [''c'']])"
proof -
  have pos: "(0::int) < 2" by simp
  have val: "chunkIDs [''a'', ''b'', ''c''] 2 = Some (Inr [[''a'', ''b''], [''c'']])"
    by code_simp
  show ?thesis using pos chunkIDs_batches [OF pos, of "[''a'', ''b'', ''c'']"] val by blast
qed

text \<open>
  C3 as stated fails at \<open>N = 0\<close>: the empty sequence gives one (empty) batch, where
  \<open>\<lceil>0 / S\<rceil> = 0\<close>.
\<close>

theorem chunkIDs_empty_counterexample:
  "chunkIDs [] batchSize = Some (Inr [[]]) \<and>
   int (length [[] :: string list]) \<noteq> \<lceil>real (length ([] :: string list)) / real_of_int batchSize\<rceil>"
proof -
  have "chunkIDs [] batchSize = Some (Inr [[]])"
    unfolding chunkIDs_def batchSize_def by (subst chunkIDs_loop.simps) simp
  then show ?thesis by simp
qed

subsection \<open>The Record Extractor and the Serializer\<close>

lemma extractSampleValue_find:
  "extractSampleValue U attrs key =
     (case find (\<lambda>a. EqualFold U (Tag a) key) attrs of None \<Rightarrow> [] | Some a \<Rightarrow> attr_Value a)"
  by (induction attrs) simp_all

lemma extractIdentifier_find:
  "extractIdentifier ids ns =
     (case find (\<lambda>i. id_Namespace i = ns) ids of None \<Rightarrow> [] | Some i \<Rightarrow> id_Value i)"
  by (induction ids) simp_all

lemma scan_ExternalIDs_find:
  "scan_ExternalIDs U exs bp =
     (case find (\<lambda>ex. ext_Namespace ex = ''BioProject'') exs of
        None \<Rightarrow> bp | Some ex \<Rightarrow> TrimSpace U (ext_Value ex))"
  by (induction exs) simp_all

lemma BioProject_UnmarshalXML: "BioProject (UnmarshalXML U aux) = study_BioProject U aux"
  by (simp add: UnmarshalXML_def study_BioProject_def scan_ExternalIDs_find Let_def
      split: option.splits)

lemma byte_inj: "(byte a = byte b) = (a = b)"
  unfolding byte_def by simp

lemma byte_ascii_lower:
  "byte (ascii_lower c) = (if 65 \<le> byte c \<and> byte c \<le> 90 then byte c + 32 else byte c)"
  unfolding ascii_lower_def byte_def by simp

lemma ascii_lower_eq_iff:
  "(ascii_lower a = ascii_lower b) =
     (byte a = byte b \<or>
      (65 \<le> byte a \<and> byte a \<le> 90 \<and> byte b = byte a + 32) \<or>
      (65 \<le> byte b \<and> byte b \<le> 90 \<and> byte a = byte b + 32))"
proof -
  have "(ascii_lower a = ascii_lower b) = (byte (ascii_lower a) = byte (ascii_lower b))"
    by (simp add: byte_inj)
  also have "\<dots> = (byte a = byte b \<or>
      (65 \<le> byte a \<and> byte a \<le> 90 \<and> byte b = byte a + 32) \<or>
      (65 \<le> byte b \<and> byte b \<le> 90 \<and> byte a = byte b + 32))"
    unfolding byte_ascii_lower by auto
  finally show ?thesis .
qed

lemma EqualFold_Cons:
  assumes "\<not> RuneSelf sr" "\<not> RuneSelf tr"
  shows "EqualFold U (sr # s) (tr # t) = (ascii_lower sr = ascii_lower tr \<and> EqualFold U s t)"
proof (cases "tr = sr")
  case True
  then show ?thesis using assms by simp
next
  case False
  then have "byte tr \<noteq> byte sr" by (simp add: byte_inj)
  then show ?thesis
    using assms False by (auto simp add: Let_def ascii_lower_eq_iff)
qed

lemma EqualFold_ascii:
  "\<forall>c \<in> set s. \<not> RuneSelf c \<Longrightarrow> \<forall>c \<in> set t. \<not> RuneSelf c \<Longrightarrow>
   EqualFold U s t = (map ascii_lower s = map ascii_lower t)"
proof (induction s arbitrary: t)
  case Nil
  then show ?case by (cases t) auto
next
  case (Cons sr s)
  show ?case
  proof (cases t)
    case Nil
    then show ?thesis by simp
  next
    case (Cons tr t')
    with Cons.prems have a: "\<not> RuneSelf sr" "\<not> RuneSelf tr"
      and b: "\<forall>c \<in> set s. \<not> RuneSelf c" "\<forall>c \<in> set t'. \<not> RuneSelf c" by auto
    show ?thesis
      unfolding Cons EqualFold_Cons [OF a] Cons.IH [OF b] by simp
  qed
qed

lemma resolve_bioproject:
  "v_bioproject (resolve_package U pkg) =
     first_nonempty [BioProject (pkg_Experiment pkg),
                     extractIdentifier (Identifiers (pkg_Sample pkg)) ''BioProject'',
                     extractSampleValue U (Attributes (pkg_Sample pkg)) ''bioproject'']"
  by (simp add: resolve_package_def first_nonempty_def Let_def)

lemma resolve_submitter:
  "v_submitter (resolve_package U pkg) =
     first_nonempty [org_Name (pkg_Organization pkg),
                     extractSampleValue U (Attributes (pkg_Sample pkg)) ''submitter'',
                     extractSampleValue U (Attributes (pkg_Sample pkg)) ''submitted_by'',
                     extractSampleValue U (Attributes (pkg_Sample pkg)) ''center_name'']"
  by (simp add: resolve_package_def first_nonempty_def Let_def)

lemma resolve_direct:
  "v_biosample (resolve_package U pkg) = extractIdentifier (Identifiers (pkg_Sample pkg)) ''BioSample''"
  "v_collDate (resolve_package U pkg) = extractSampleValue U (Attributes (pkg_Sample pkg)) ''collection_date''"
  "v_geoLoc (resolve_package U pkg) = extractSampleValue U (Attributes (pkg_Sample pkg)) ''geo_loc_name''"
  "v_pop (resolve_package U pkg) = extractSampleValue U (Attributes (pkg_Sample pkg)) ''ww_population''"
  by (simp_all add: resolve_package_def Let_def)

text \<open>
  C4. For every package, the resolved BioProject is the first non-empty value among, in this
  order: the experiment-level value that \<open>UnmarshalXML\<close> stores (the trimmed text of the
  first \<^verbatim>\<open>STUDY_REF\<close> external identifier of namespace \<^verbatim>\<open>BioProject\<close>), the first sample
  identifier of namespace \<^verbatim>\<open>BioProject\<close>, and the first sample attribute whose tag folds to
  \<^verbatim>\<open>bioproject\<close>; it is the empty string when all three are empty. In particular a
  non-empty experiment-level value wins over everything the sample carries.
\<close>

theorem bioproject_precedence:
  "v_bioproject (resolve_package U (pkg\<lparr>pkg_Experiment := UnmarshalXML U aux\<rparr>)) =
     first_nonempty
       [study_BioProject U aux,
        (case find (\<lambda>i. id_Namespace i = ''BioProject'') (Identifiers (pkg_Sample pkg)) of
           None \<Rightarrow> [] | Some i \<Rightarrow> id_Value i),
        (case find (\<lambda>a. EqualFold U (Tag a) ''bioproject'') (Attributes (pkg_Sample pkg)) of
           None \<Rightarrow> [] | Some a \<Rightarrow> attr_Value a)] \<and>
   (study_BioProject U aux \<noteq> [] \<longrightarrow>
      v_bioproject (resolve_package U (pkg\<lparr>pkg_Experiment := UnmarshalXML U aux\<rparr>)) =
        study_BioProject U aux)"
  by (simp add: resolve_bioproject BioProject_UnmarshalXML extractIdentifier_find
      extractSampleValue_find first_nonempty_def)

theorem bioproject_precedence_witness:
  "study_BioProject no_unicode example_aux = ''PRJNA000'' \<and>
   ''PRJNA000'' \<noteq> [] \<and>
   extractSampleValue no_unicode (Attributes (pkg_Sample both_package)) ''bioproject'' = ''PRJNA222'' \<and>
   v_bioproject (resolve_package no_unicode
      (both_package\<lparr>pkg_Experiment := UnmarshalXML no_unicode example_aux\<rparr>)) = ''PRJNA000''"
proof -
  have a: "study_BioProject no_unicode example_aux = ''PRJNA000''"
    by (simp add: study_BioProject_def example_aux_def RuneSelf_def asciiSpace_def byte_def)
  have b: "extractSampleValue no_unicode (Attributes (pkg_Sample both_package)) ''bioproject'' = ''PRJNA222''"
    by (simp add: both_package_def RuneSelf_def byte_def)
  have ne: "study_BioProject no_unicode example_aux \<noteq> []" using a by simp
  have "v_bioproject (resolve_package no_unicode
      (both_package\<lparr>pkg_Experiment := UnmarshalXML no_unicode example_aux\<rparr>)) =
        study_BioProject no_unicode example_aux"
    using bioproject_precedence [where U = no_unicode and pkg = both_package and aux = example_aux] ne
    by blast
  then show ?thesis using a b by simp
qed

lemma Sprintf_row:
  "Sprintf row_format [a, b, c, d, e, f, g, h, i, j] =
     a @ TAB @ b @ TAB @ c @ TAB @ d @ TAB @ e @ TAB @ f @ TAB @ g @ TAB @ h @ TAB @ i @ TAB @ j @ NL"
  by (simp add: row_format_def TAB_def NL_def)

lemma foldl_write_run:
  "foldl (write_run v pkg) tsv runs =
     tsv @ concat (map (\<lambda>run. Sprintf row_format (run_operands v pkg run)) runs)"
  by (induction runs arbitrary: tsv) (simp_all add: write_run_def WriteString_def)

lemma writePackage_rows:
  "writePackage U pkg tsv = tsv @ concat (map (Sprintf row_format) (package_rows U pkg))"
  by (simp add: writePackage_def foldl_write_run package_rows_def comp_def)

text \<open>
  C8. A package with \<open>K\<close> runs gives exactly \<open>K\<close> rows, one per run and in the order of the
  runs, whatever optional metadata is missing. Every row carries the same six package-level
  values (BioProject, BioSample, Submitter, CollectionDate, Location, Population); only the
  run accession, the total spots and the two dates change from row to row. \<open>writePackage\<close>
  appends to the file exactly these rows, each as ten tab-separated fields and a newline.
\<close>

theorem row_fan_out:
  "length (package_rows U pkg) = length (Runs (pkg_RunSet pkg)) \<and>
   package_rows U pkg =
     map (\<lambda>run. [run_Accession run,
                 v_bioproject (resolve_package U pkg), v_biosample (resolve_package U pkg),
                 v_submitter (resolve_package U pkg), v_collDate (resolve_package U pkg),
                 v_geoLoc (resolve_package U pkg), v_pop (resolve_package U pkg),
                 TotalSpots run,
                 (if run_ReleaseDate run = [] then pkg_ReleaseDate pkg else run_ReleaseDate run),
                 (if run_LoadDate run = [] then pkg_LoadDate pkg else run_LoadDate run)])
       (Runs (pkg_RunSet pkg)) \<and>
   writePackage U pkg tsv =
     tsv @ concat (map (\<lambda>run.
         run_Accession run @ TAB @
         v_bioproject (resolve_package U pkg) @ TAB @ v_biosample (resolve_package U pkg) @ TAB @
         v_submitter (resolve_package U pkg) @ TAB @ v_collDate (resolve_package U pkg) @ TAB @
         v_geoLoc (resolve_package U pkg) @ TAB @ v_pop (resolve_package U pkg) @ TAB @
         TotalSpots run @ TAB @
         (if run_ReleaseDate run = [] then pkg_ReleaseDate pkg else run_ReleaseDate run) @ TAB @
         (if run_LoadDate run = [] then pkg_LoadDate pkg else run_LoadDate run) @ NL)
       (Runs (pkg_RunSet pkg)))"
proof -
  have rows: "package_rows U pkg =
     map (\<lambda>run. [run_Accession run,
                 v_bioproject (resolve_package U pkg), v_biosample (resolve_package U pkg),
                 v_submitter (resolve_package U pkg), v_collDate (resolve_package U pkg),
                 v_geoLoc (resolve_package U pkg), v_pop (resolve_package U pkg),
                 TotalSpots run,
                 (if run_ReleaseDate run = [] then pkg_ReleaseDate pkg else run_ReleaseDate run),
                 (if run_LoadDate run = [] then pkg_LoadDate pkg else run_LoadDate run)])
       (Runs (pkg_RunSet pkg))"
    by (simp add: package_rows_def run_operands_def Let_def)
  have len: "length (package_rows U pkg) = length (Runs (pkg_RunSet pkg))"
    by (simp add: package_rows_def)
  have out: "writePackage U pkg tsv = tsv @ concat (map (Sprintf row_format) (package_rows U pkg))"
    by (rule writePackage_rows)
  show ?thesis
    unfolding out unfolding rows by (simp add: comp_def Sprintf_row len [unfolded rows, simplified])
qed

text \<open>
  C5, as the code has it. For the package of the end-to-end example the program writes the
  header line and then the line
  \<^verbatim>\<open>SRR000001\tPRJNA000\tSAMN000\tACME Lab\t2024-01-01\t\t\t\t\t\<close> and a newline: the ten columns
  are separated by nine tabs, so five tabs follow the collection date (Location,
  Population, TotalSpots, ReleaseDate and LoadDate are empty).
\<close>

theorem example_output:
  "write_results U [\<lparr>Packages = [example_package U]\<rparr>] =
     header_line @
     ''SRR000001'' @ TAB @ ''PRJNA000'' @ TAB @ ''SAMN000'' @ TAB @ ''ACME Lab'' @ TAB @
     ''2024-01-01'' @ TAB @ TAB @ TAB @ TAB @ TAB @ NL"
  by (simp add: write_results_def writePackage_def example_package_def example_aux_def
      UnmarshalXML_def resolve_package_def write_run_def run_operands_def WriteString_def
      row_format_def TAB_def NL_def RuneSelf_def asciiSpace_def byte_def)

text \<open>
  C5 as stated fails: the line of the specification has six tabs after the collection
  date, which would be an eleventh column.
\<close>

theorem example_output_counterexample:
  "write_results no_unicode [\<lparr>Packages = [example_package no_unicode]\<rparr>] \<noteq>
     header_line @
     ''SRR000001'' @ TAB @ ''PRJNA000'' @ TAB @ ''SAMN000'' @ TAB @ ''ACME Lab'' @ TAB @
     ''2024-01-01'' @ TAB @ TAB @ TAB @ TAB @ TAB @ TAB @ NL"
  by (simp add: write_results_def writePackage_def example_package_def example_aux_def
      UnmarshalXML_def resolve_package_def write_run_def run_operands_def WriteString_def
      row_format_def TAB_def NL_def RuneSelf_def asciiSpace_def byte_def)

text \<open>
  C10. \<open>extractSampleValue\<close> returns the value of the first attribute whose tag equals the key
  under \<open>EqualFold\<close>, and the empty string when no tag does; on ASCII strings \<open>EqualFold\<close> is
  equality up to the case of the letters. \<open>extractIdentifier\<close> returns the value of the first
  identifier whose namespace is the very string asked for. Every attribute lookup of
  \<open>writePackage\<close> (\<^verbatim>\<open>bioproject\<close>, \<^verbatim>\<open>submitter\<close>, \<^verbatim>\<open>submitted_by\<close>, \<^verbatim>\<open>center_name\<close>,
  \<^verbatim>\<open>collection_date\<close>, \<^verbatim>\<open>geo_loc_name\<close>, \<^verbatim>\<open>ww_population\<close>) goes through the former, and
  both namespace lookups through the latter.
\<close>

theorem attribute_lookup_case_insensitive:
  "extractSampleValue U attrs key =
     (case find (\<lambda>a. EqualFold U (Tag a) key) attrs of None \<Rightarrow> [] | Some a \<Rightarrow> attr_Value a) \<and>
   ((\<forall>c \<in> set tag. \<not> RuneSelf c) \<and> (\<forall>c \<in> set key. \<not> RuneSelf c) \<longrightarrow>
      EqualFold U tag key = (map ascii_lower tag = map ascii_lower key)) \<and>
   extractIdentifier ids ns =
     (case find (\<lambda>i. id_Namespace i = ns) ids of None \<Rightarrow> [] | Some i \<Rightarrow> id_Value i) \<and>
   v_bioproject (resolve_package U pkg) =
     first_nonempty [BioProject (pkg_Experiment pkg),
                     extractIdentifier (Identifiers (pkg_Sample pkg)) ''BioProject'',
                     extractSampleValue U (Attributes (pkg_Sample pkg)) ''bioproject''] \<and>
   v_submitter (resolve_package U pkg) =
     first_nonempty [org_Name (pkg_Organization pkg),
                     extractSampleValue U (Attributes (pkg_Sample pkg)) ''submitter'',
                     extractSampleValue U (Attributes (pkg_Sample pkg)) ''submitted_by'',
                     extractSampleValue U (Attributes (pkg_Sample pkg)) ''center_name''] \<and>
   v_collDate (resolve_package U pkg) =
     extractSampleValue U (Attributes (pkg_Sample pkg)) ''collection_date'' \<and>
   v_geoLoc (resolve_package U pkg) =
     extractSampleValue U (Attributes (pkg_Sample pkg)) ''geo_loc_name'' \<and>
   v_pop (resolve_package U pkg) =
     extractSampleValue U (Attributes (pkg_Sample pkg)) ''ww_population'' \<and>
   v_biosample (resolve_package U pkg) =
     extractIdentifier (Identifiers (pkg_Sample pkg)) ''BioSample''"
  using extractSampleValue_find [of U attrs key] extractIdentifier_find [of ids ns]
    EqualFold_ascii [of tag key U] resolve_bioproject [of U pkg] resolve_submitter [of U pkg]
    resolve_direct [of U pkg]
  by blast

theorem attribute_lookup_case_insensitive_witness:
  "list_all (\<lambda>c. \<not> RuneSelf c) ''COLLECTION_DATE'' \<and>
   list_all (\<lambda>c. \<not> RuneSelf c) ''collection_date'' \<and>
   EqualFold no_unicode ''COLLECTION_DATE'' ''collection_date'' \<and>
   v_collDate (resolve_package no_unicode mixed_case_package) = ''2024-02-02'' \<and>
   v_geoLoc (resolve_package no_unicode mixed_case_package) = ''USA'' \<and>
   v_biosample (resolve_package no_unicode mixed_case_package) = ''SAMN222''"
proof -
  have a: "\<forall>c \<in> set ''COLLECTION_DATE''. \<not> RuneSelf c"
    by (simp add: RuneSelf_def byte_def)
  have b: "\<forall>c \<in> set ''collection_date''. \<not> RuneSelf c"
    by (simp add: RuneSelf_def byte_def)
  have low: "map ascii_lower ''COLLECTION_DATE'' = map ascii_lower ''collection_date''"
    by code_simp
  note inst = attribute_lookup_case_insensitive [where U = no_unicode and tag = "''COLLECTION_DATE''"
      and key = "''collection_date''" and pkg = mixed_case_package
      and attrs = "[]" and ids = "[]" and ns = "[]"]
  have fold: "EqualFold no_unicode ''COLLECTION_DATE'' ''collection_date''"
    using inst a b low by blast
  have c: "extractSampleValue no_unicode (Attributes (pkg_Sample mixed_case_package)) ''collection_date'' = ''2024-02-02''"
    by (simp add: mixed_case_package_def RuneSelf_def byte_def)
  have g: "extractSampleValue no_unicode (Attributes (pkg_Sample mixed_case_package)) ''geo_loc_name'' = ''USA''"
    by (simp add: mixed_case_package_def RuneSelf_def byte_def)
  have s: "extractIdentifier (Identifiers (pkg_Sample mixed_case_package)) ''BioSample'' = ''SAMN222''"
    by (simp add: mixed_case_package_def)
  have a': "list_all (\<lambda>c. \<not> RuneSelf c) ''COLLECTION_DATE''"
    using a unfolding list_all_iff .
  have b': "list_all (\<lambda>c. \<not> RuneSelf c) ''collection_date''"
    using b unfolding list_all_iff .
  show ?thesis using a' b' fold inst c g s by simp
qed

subsection \<open>The Fetch-Retry Worker\<close>

lemma fetches_append [simp]: "fetches (xs @ ys) = fetches xs @ fetches ys"
  by (induction xs rule: fetches.induct) simp_all

lemma waits_append [simp]: "waits (xs @ ys) = waits xs @ waits ys"
  by (induction xs rule: waits.induct) simp_all

lemma sends_append [simp]: "sends (xs @ ys) = sends xs @ sends ys"
  by (induction xs rule: sends.induct) simp_all

lemma prints_append [simp]: "prints (xs @ ys) = prints xs @ prints ys"
  by (induction xs rule: prints.induct) simp_all

lemma worker_loop_step:
  assumes "attempt < maxRetries"
  shows "worker_loop fetch attempt err =
           before_attempt attempt @ Fetch attempt #
             (case fetch attempt of
                Inr pkgSet \<Rightarrow> [Send pkgSet, AddCompleted]
              | Inl e \<Rightarrow> worker_loop fetch (Suc attempt) (Some e))"
  using assms by (subst worker_loop.simps) (simp add: before_attempt_def split: sum.splits)

lemma worker_loop_exhausted:
  "\<not> attempt < maxRetries \<Longrightarrow>
   worker_loop fetch attempt err = [Print (Failed_batch_after_retries err)]"
  by (subst worker_loop.simps) simp

lemma worker_loop_failures:
  "a \<le> n \<Longrightarrow> n < maxRetries \<Longrightarrow> \<forall>j. a \<le> j \<and> j \<le> n \<longrightarrow> isl (fetch j) \<Longrightarrow>
   worker_loop fetch a err =
     concat (map (\<lambda>j. before_attempt j @ [Fetch j]) [a..<Suc n]) @
     worker_loop fetch (Suc n) (Some (projl (fetch n)))"
proof (induction n)
  case 0
  then have "a = 0" and "isl (fetch 0)" by auto
  then obtain e where "fetch 0 = Inl e" by (cases "fetch 0") auto
  then show ?case using 0 \<open>a = 0\<close> by (simp add: worker_loop_step)
next
  case (Suc n)
  have fails: "isl (fetch (Suc n))" using Suc.prems by auto
  then obtain e where e: "fetch (Suc n) = Inl e" by (cases "fetch (Suc n)") auto
  have lt: "Suc n < maxRetries" using Suc.prems by simp
  have unfold: "worker_loop fetch (Suc n) err' =
      (before_attempt (Suc n) @ [Fetch (Suc n)]) @
      worker_loop fetch (Suc (Suc n)) (Some (projl (fetch (Suc n))))" for err'
    using e by (simp add: worker_loop_step [OF lt])
  show ?case
  proof (cases "a = Suc n")
    case True
    then show ?thesis using unfold by simp
  next
    case False
    then have "a \<le> n" using Suc.prems by simp
    moreover have "n < maxRetries" using lt by simp
    moreover have "\<forall>j. a \<le> j \<and> j \<le> n \<longrightarrow> isl (fetch j)" using Suc.prems by simp
    ultimately have "worker_loop fetch a err =
        concat (map (\<lambda>j. before_attempt j @ [Fetch j]) [a..<Suc n]) @
        worker_loop fetch (Suc n) (Some (projl (fetch n)))"
      by (rule Suc.IH)
    then show ?thesis using \<open>a \<le> n\<close> by (simp add: unfold)
  qed
qed


lemma fetches_before_attempt [simp]: "fetches (before_attempt j) = []"
  by (simp add: before_attempt_def)

lemma sends_before_attempt [simp]: "sends (before_attempt j) = []"
  by (simp add: before_attempt_def)

lemma waits_before_attempt: "waits (before_attempt j) = (if 0 < j then [2 ^ j] else [])"
  by (simp add: before_attempt_def)

lemma fetches_attempts:
  "fetches (concat (map (\<lambda>j. before_attempt j @ [Fetch j]) [0..<n])) = [0..<n]"
  by (induction n) simp_all

lemma sends_attempts:
  "sends (concat (map (\<lambda>j. before_attempt j @ [Fetch j]) [0..<n])) = []"
  by (induction n) simp_all

lemma waits_attempts:
  "waits (concat (map (\<lambda>j. before_attempt j @ [Fetch j]) [0..<n])) = map (\<lambda>j. 2 ^ j) [1..<n]"
  by (induction n) (auto simp add: waits_before_attempt)

lemma AddCompleted_attempts:
  "AddCompleted \<notin> set (concat (map (\<lambda>j. before_attempt j @ [Fetch j]) [0..<n]))"
  by (auto simp add: before_attempt_def split: if_splits)

lemma prints_attempts:
  "prints (concat (map (\<lambda>j. before_attempt j @ [Fetch j]) [0..<n])) =
     map (\<lambda>j. Retrying_batch_after (2 ^ j)) [6..<n]"
proof (induction n)
  case 0
  show ?case by simp
next
  case (Suc n)
  have "prints (before_attempt n @ [Fetch n]) =
          (if 5 < n then [Retrying_batch_after (2 ^ n)] else [])"
    by (simp add: before_attempt_def)
  moreover have "[6..<Suc n] = (if 5 < n then [6..<n] @ [n] else [])"
    by auto
  ultimately show ?case using Suc by simp
qed

text \<open>
  C6, as the code has it. The sleep is computed from the number of the attempt that is about
  to start. When the attempts \<open>0, \<dots>, i\<close> fail and attempt \<open>i + 1\<close> is within the budget, the
  worker sleeps exactly \<open>2 ^ (i + 1)\<close> seconds between the fetch of attempt \<open>i\<close> and the fetch of
  attempt \<open>i + 1\<close> (2 seconds before the first retry), so the waits double from one retry to
  the next.
\<close>

theorem backoff_before_retry:
  assumes "\<forall>j \<le> i. isl (fetch j)" and "Suc i < maxRetries"
  shows "(\<exists>pre post. worker fetch =
            pre @ [Fetch i, Sleep (2 ^ Suc i)] @
            (if 5 < Suc i then [Print (Retrying_batch_after (2 ^ Suc i))] else []) @
            Fetch (Suc i) # post) \<and>
         waits (worker fetch) ! i = 2 ^ Suc i"
proof -
  let ?g = "\<lambda>j. before_attempt j @ [Fetch j]"
  let ?rest = "case fetch (Suc i) of
                 Inr pkgSet \<Rightarrow> [Send pkgSet, AddCompleted]
               | Inl e \<Rightarrow> worker_loop fetch (Suc (Suc i)) (Some e)"
  have "i < maxRetries" using assms(2) by simp
  moreover have "\<forall>j. 0 \<le> j \<and> j \<le> i \<longrightarrow> isl (fetch j)" using assms(1) by simp
  ultimately have loop: "worker_loop fetch 0 None =
      concat (map ?g [0..<Suc i]) @ worker_loop fetch (Suc i) (Some (projl (fetch i)))"
    by (intro worker_loop_failures) simp_all
  have next_attempt: "worker_loop fetch (Suc i) (Some (projl (fetch i))) =
      before_attempt (Suc i) @ Fetch (Suc i) # ?rest"
    by (rule worker_loop_step [OF assms(2)])
  have before: "before_attempt (Suc i) =
      Sleep (2 ^ Suc i) # (if 5 < Suc i then [Print (Retrying_batch_after (2 ^ Suc i))] else [])"
    by (simp add: before_attempt_def)
  have whole: "worker fetch =
      concat (map ?g [0..<Suc i]) @ before_attempt (Suc i) @ Fetch (Suc i) # ?rest @ [RecvSem, WgDone]"
    unfolding worker_def loop next_attempt by simp
  have "worker fetch =
      (concat (map ?g [0..<i]) @ before_attempt i) @ [Fetch i, Sleep (2 ^ Suc i)] @
      (if 5 < Suc i then [Print (Retrying_batch_after (2 ^ Suc i))] else []) @
      Fetch (Suc i) # (?rest @ [RecvSem, WgDone])"
    unfolding whole before by simp
  then have shape: "\<exists>pre post. worker fetch =
            pre @ [Fetch i, Sleep (2 ^ Suc i)] @
            (if 5 < Suc i then [Print (Retrying_batch_after (2 ^ Suc i))] else []) @
            Fetch (Suc i) # post"
    by blast
  have "waits (worker fetch) =
      map (\<lambda>j. 2 ^ j) [1..<Suc i] @ 2 ^ Suc i # waits (?rest @ [RecvSem, WgDone])"
    unfolding whole by (simp add: waits_attempts waits_before_attempt del: upt_Suc)
  moreover have "length (map (\<lambda>j. (2::nat) ^ j) [1..<Suc i]) = i" by simp
  ultimately have "waits (worker fetch) ! i = 2 ^ Suc i"
    by (metis nth_append_length)
  with shape show ?thesis by blast
qed


theorem backoff_before_retry_witness:
  "isl (always_fails 0) \<and> Suc 0 < maxRetries \<and>
   (\<exists>pre post. worker always_fails =
      pre @ [Fetch 0, Sleep (2 ^ Suc 0)] @
      (if 5 < Suc 0 then [Print (Retrying_batch_after (2 ^ Suc 0))] else []) @
      Fetch (Suc 0) # post) \<and>
   waits (worker always_fails) ! 0 = 2 ^ Suc 0 \<and>
   waits (worker always_fails) = [2, 4, 8, 16, 32, 64]"
proof -
  have a: "\<forall>j \<le> 0. isl (always_fails j)" by (simp add: always_fails_def)
  have b: "Suc 0 < maxRetries" by (simp add: maxRetries_def)
  have c: "waits (worker always_fails) = [2, 4, 8, 16, 32, 64]" by code_simp
  show ?thesis using backoff_before_retry [OF a b] a b c by simp
qed

text \<open>
  C6 as stated fails at \<open>i = 0\<close>: after the failure of attempt \<open>0\<close> the worker sleeps 2 seconds,
  not \<open>2 ^ 0 = 1\<close>.
\<close>

theorem backoff_counterexample:
  "isl (always_fails 0) \<and> Suc 0 < maxRetries \<and>
   take 3 (worker always_fails) = [Fetch 0, Sleep 2, Fetch 1] \<and>
   waits (worker always_fails) ! 0 \<noteq> 2 ^ 0"
proof -
  have "take 3 (worker always_fails) = [Fetch 0, Sleep 2, Fetch 1]" by code_simp
  moreover have "waits (worker always_fails) = [2, 4, 8, 16, 32, 64]" by code_simp
  ultimately show ?thesis by (simp add: always_fails_def maxRetries_def)
qed

lemma worker_all_fail:
  assumes "\<forall>a < maxRetries. isl (fetch a)"
  shows "worker fetch =
           concat (map (\<lambda>j. before_attempt j @ [Fetch j]) [0..<maxRetries]) @
           [Print (Failed_batch_after_retries (Some (projl (fetch (maxRetries - 1))))),
            RecvSem, WgDone]"
proof -
  have "maxRetries - 1 < maxRetries" by (simp add: maxRetries_def)
  moreover have "\<forall>j. 0 \<le> j \<and> j \<le> maxRetries - 1 \<longrightarrow> isl (fetch j)"
    using assms by (simp add: maxRetries_def)
  ultimately have "worker_loop fetch 0 None =
      concat (map (\<lambda>j. before_attempt j @ [Fetch j]) [0..<Suc (maxRetries - 1)]) @
      worker_loop fetch (Suc (maxRetries - 1)) (Some (projl (fetch (maxRetries - 1))))"
    by (intro worker_loop_failures) simp_all
  moreover have "Suc (maxRetries - 1) = maxRetries" by (simp add: maxRetries_def)
  ultimately show ?thesis by (simp add: worker_def worker_loop_exhausted)
qed

lemma worker_all_fail_facts:
  assumes "\<forall>a < maxRetries. isl (fetch a)"
  shows "fetches (worker fetch) = [0..<maxRetries]"
    and "sends (worker fetch) = []"
    and "AddCompleted \<notin> set (worker fetch)"
    and "prints (worker fetch) =
           [Retrying_batch_after 64,
            Failed_batch_after_retries (Some (projl (fetch (maxRetries - 1))))]"
proof -
  note w = worker_all_fail [OF assms]
  show "fetches (worker fetch) = [0..<maxRetries]"
    unfolding w by (simp add: fetches_attempts del: upt_Suc)
  show "sends (worker fetch) = []"
    unfolding w by (simp add: sends_attempts del: upt_Suc)
  show "AddCompleted \<notin> set (worker fetch)"
    unfolding w using AddCompleted_attempts [of maxRetries] by simp
  have "[6..<maxRetries] = [6]" by (simp add: maxRetries_def upt_rec)
  then show "prints (worker fetch) =
           [Retrying_batch_after 64,
            Failed_batch_after_retries (Some (projl (fetch (maxRetries - 1))))]"
    unfolding w by (simp add: prints_attempts del: upt_Suc)
qed

subsection \<open>The Concurrency Controller\<close>

lemma sum_list_map_update:
  fixes f :: "'a \<Rightarrow> nat"
  assumes "j < length ws"
  shows "sum_list (map f (ws[j := x])) + f (ws ! j) = sum_list (map f ws) + f x"
  using assms
proof (induction ws arbitrary: j)
  case Nil
  then show ?case by simp
next
  case (Cons w ws)
  then show ?case by (cases j) auto
qed

lemma apply_event_effect:
  assumes "apply_event cfg ev s = Some s1"
  shows "pc s1 = pc s" and "workers s1 = workers s"
    and "sem s1 + count_list [ev] RecvSem = sem s"
    and "wg s1 = wg s - int (count_list [ev] WgDone)"
    and "completed s1 = completed s + int (count_list [ev] AddCompleted)"
    and "results s1 = results s @ sends [ev]"
    and "length (results s1) \<le> length (batches cfg) \<or> sends [ev] = []"
    and "mon_last s1 = mon_last s" and "mon_done s1 = mon_done s"
    and "progress s1 = progress s" and "bar_finished s1 = bar_finished s"
    and "tsv_file s1 = tsv_file s"
  using assms by (cases ev; auto split: if_splits)+

lemma worker_step_cases:
  assumes "step cfg (Worker j) s = Some s'"
  obtains ev rest s1 where "j < length (workers s)" and "workers s ! j = ev # rest"
    and "apply_event cfg ev s = Some s1" and "s' = s1\<lparr>workers := (workers s)[j := rest]\<rparr>"
    and "\<not> exited s"
proof -
  from assms have j: "j < length (workers s)" and ne: "\<not> exited s"
    by (auto split: if_splits)
  from assms j ne obtain ev rest where w: "workers s ! j = ev # rest"
    by (cases "workers s ! j") auto
  from assms j ne w obtain s1 where a: "apply_event cfg ev s = Some s1"
    by (cases "apply_event cfg ev s") auto
  have "workers s1 = workers s" using a by (rule apply_event_effect)
  with assms j ne w a have "s' = s1\<lparr>workers := (workers s)[j := rest]\<rparr>" by simp
  with j w a ne show thesis by (intro that)
qed

lemma count_list_append [simp]: "count_list (xs @ ys) x = count_list xs x + count_list ys x"
  by (induction xs) simp_all

lemma count_list_0_iff: "count_list xs x = 0 \<longleftrightarrow> x \<notin> set xs"
  by (induction xs) simp_all

lemma worker_loop_events:
  "RecvSem \<notin> set (worker_loop fetch attempt err) \<and>
   WgDone \<notin> set (worker_loop fetch attempt err) \<and>
   count_list (worker_loop fetch attempt err) AddCompleted \<le> 1 \<and>
   length (sends (worker_loop fetch attempt err)) \<le> 1 \<and>
   length (sends (worker_loop fetch attempt err)) =
     count_list (worker_loop fetch attempt err) AddCompleted"
proof (induction fetch attempt err rule: worker_loop.induct)
  case (1 fetch attempt err)
  show ?case
  proof (cases "attempt < maxRetries")
    case False
    then show ?thesis by (simp add: worker_loop_exhausted)
  next
    case True
    note step = worker_loop_step [OF True, of fetch err]
    show ?thesis
    proof (cases "fetch attempt")
      case (Inr pkgSet)
      then show ?thesis unfolding step by (simp add: before_attempt_def)
    next
      case (Inl e)
      with 1 True have ih:
        "RecvSem \<notin> set (worker_loop fetch (attempt + 1) (Some e)) \<and>
         WgDone \<notin> set (worker_loop fetch (attempt + 1) (Some e)) \<and>
         count_list (worker_loop fetch (attempt + 1) (Some e)) AddCompleted \<le> 1 \<and>
         length (sends (worker_loop fetch (attempt + 1) (Some e))) \<le> 1 \<and>
         length (sends (worker_loop fetch (attempt + 1) (Some e))) =
           count_list (worker_loop fetch (attempt + 1) (Some e)) AddCompleted"
        by simp
      then show ?thesis unfolding step using Inl by (auto simp add: before_attempt_def)
    qed
  qed
qed

lemma worker_counts:
  "count_list (worker fetch) RecvSem = 1"
  "count_list (worker fetch) WgDone = 1"
  "count_list (worker fetch) AddCompleted \<le> 1"
  "length (sends (worker fetch)) \<le> 1"
  using worker_loop_events [of fetch 0 None]
  by (simp_all add: worker_def count_list_0_iff)

text \<open>What is left of a worker: nothing, the last deferred call, or both deferred calls
  after a part of the loop.\<close>

lemma worker_suffix:
  "drop k (worker fetch) = [] \<or> drop k (worker fetch) = [WgDone] \<or>
   (\<exists>body. drop k (worker fetch) = body @ [RecvSem, WgDone] \<and>
      RecvSem \<notin> set body \<and> WgDone \<notin> set body)"
proof -
  let ?loop = "worker_loop fetch 0 None"
  have none: "RecvSem \<notin> set ?loop" "WgDone \<notin> set ?loop"
    using worker_loop_events [of fetch 0 None] by simp_all
  consider "k \<le> length ?loop" | "k = Suc (length ?loop)" | "Suc (length ?loop) < k"
    by linarith
  then show ?thesis
  proof cases
    case 1
    then have "drop k (worker fetch) = drop k ?loop @ [RecvSem, WgDone]"
      by (simp add: worker_def)
    moreover have "RecvSem \<notin> set (drop k ?loop)" "WgDone \<notin> set (drop k ?loop)"
      using none by (auto dest: in_set_dropD)
    ultimately show ?thesis by blast
  next
    case 2
    then show ?thesis by (simp add: worker_def)
  next
    case 3
    then show ?thesis by (simp add: worker_def)
  qed
qed

lemma ctl_inv_init: "ctl_inv cfg init"
  by (simp add: ctl_inv_def init_def slots_def joins_def adds_def deposits_def started_def)

lemma slots_snoc: "slots (ws @ [worker fetch]) = slots ws + 1"
  by (simp add: slots_def worker_counts)

lemma joins_snoc: "joins (ws @ [worker fetch]) = joins ws + 1"
  by (simp add: joins_def worker_counts)

lemma adds_snoc: "adds (ws @ [w]) = adds ws + count_list w AddCompleted"
  by (simp add: adds_def)

lemma deposits_snoc: "deposits (ws @ [w]) = deposits ws @ sends w"
  by (simp add: deposits_def)

lemma started_Suc: "started cfg (Suc n) = started cfg n @ [worker (fetchBatch cfg n)]"
  by (simp add: started_def)

lemma slots_update:
  "j < length ws \<Longrightarrow> ws ! j = ev # rest \<Longrightarrow>
   slots (ws[j := rest]) + count_list [ev] RecvSem = slots ws"
  using sum_list_map_update [of j ws "\<lambda>w. count_list w RecvSem" rest]
  by (auto simp add: slots_def)

lemma joins_update:
  "j < length ws \<Longrightarrow> ws ! j = ev # rest \<Longrightarrow>
   joins (ws[j := rest]) + count_list [ev] WgDone = joins ws"
  using sum_list_map_update [of j ws "\<lambda>w. count_list w WgDone" rest]
  by (auto simp add: joins_def)

lemma adds_update:
  "j < length ws \<Longrightarrow> ws ! j = ev # rest \<Longrightarrow>
   adds (ws[j := rest]) + count_list [ev] AddCompleted = adds ws"
  using sum_list_map_update [of j ws "\<lambda>w. count_list w AddCompleted" rest]
  by (auto simp add: adds_def)

lemma sends_Cons: "sends (ev # rest) = sends [ev] @ sends rest"
  by (cases ev) simp_all

lemma deposits_update:
  "j < length ws \<Longrightarrow> ws ! j = ev # rest \<Longrightarrow>
   mset (sends [ev]) + mset (deposits (ws[j := rest])) = mset (deposits ws)"
proof (induction ws arbitrary: j)
  case Nil
  then show ?case by simp
next
  case (Cons w ws)
  show ?case
  proof (cases j)
    case 0
    with Cons.prems have "w = ev # rest" by simp
    then show ?thesis using 0 sends_Cons [of ev rest] by (simp add: deposits_def)
  next
    case (Suc j')
    with Cons.prems have "j' < length ws" "ws ! j' = ev # rest" by simp_all
    from Cons.IH [OF this] show ?thesis using Suc by (simp add: deposits_def)
  qed
qed

lemma suffix_no_join:
  assumes "w = drop k (worker fetch)" and "count_list w WgDone = 0"
  shows "w = []"
  using worker_suffix [of k fetch] assms by auto

lemma all_workers_done:
  assumes "\<forall>j < length ws. \<exists>k. ws ! j = drop k (worker (f j))" and "joins ws = 0"
  shows "\<forall>w \<in> set ws. w = []"
proof
  fix w assume "w \<in> set ws"
  then obtain j where j: "j < length ws" "ws ! j = w" by (auto simp add: in_set_conv_nth)
  from assms(2) \<open>w \<in> set ws\<close> have "count_list w WgDone = 0"
    by (simp add: joins_def)
  moreover from assms(1) j obtain k where "w = drop k (worker (f j))" by auto
  ultimately show "w = []" by (intro suffix_no_join [of w k "f j"]) simp_all
qed

lemma ctl_inv_main:
  assumes inv: "ctl_inv cfg s" and st: "main_step cfg s = Some s'"
  shows "ctl_inv cfg s'"
proof (cases "pc s")
  case (M_Loop i)
  with inv st show ?thesis
    by (auto simp add: ctl_inv_def split: if_splits)
next
  case (M_SendSem i)
  with inv st show ?thesis
    by (auto simp add: ctl_inv_def split: if_splits)
next
  case (M_Go i)
  with inv st have s': "s' = s\<lparr>workers := workers s @ [worker (fetchBatch cfg i)], pc := M_Loop (i + 1)\<rparr>"
    and i: "i = length (workers s)" "i < length (batches cfg)"
    by (auto simp add: ctl_inv_def)
  have suf: "\<forall>j < length (workers s'). \<exists>k. workers s' ! j = drop k (worker (fetchBatch cfg j))"
  proof (intro allI impI)
    fix j assume "j < length (workers s')"
    then consider "j < length (workers s)" | "j = length (workers s)"
      unfolding s' by (auto simp add: less_Suc_eq)
    then show "\<exists>k. workers s' ! j = drop k (worker (fetchBatch cfg j))"
    proof cases
      case 1
      with inv show ?thesis unfolding s' by (simp add: ctl_inv_def nth_append)
    next
      case 2
      then have "workers s' ! j = drop 0 (worker (fetchBatch cfg j))"
        unfolding s' using i by (simp add: nth_append)
      then show ?thesis by blast
    qed
  qed
  from inv M_Go i suf show ?thesis
    unfolding ctl_inv_def s'
    by (simp add: slots_snoc joins_snoc adds_snoc deposits_snoc started_Suc)
next
  case M_Wait
  with st have wg0: "wg s = 0" and s': "s' = s\<lparr>pc := M_Finish\<rparr>"
    by (auto split: if_splits)
  from inv M_Wait wg0 have "joins (workers s) = 0" by (simp add: ctl_inv_def)
  with inv have "\<forall>w \<in> set (workers s). w = []"
    by (intro all_workers_done [of _ "fetchBatch cfg"]) (simp_all add: ctl_inv_def)
  with inv M_Wait show ?thesis unfolding s' by (simp add: ctl_inv_def)
next
  case M_Finish
  with inv st show ?thesis by (auto simp add: ctl_inv_def)
next
  case M_Close
  with inv st show ?thesis by (auto simp add: ctl_inv_def)
next
  case M_Create
  with inv st show ?thesis by (auto simp add: ctl_inv_def split: if_splits)
next
  case M_Done
  with st show ?thesis by simp
next
  case M_Fatal
  with st show ?thesis by simp
qed

lemma ctl_inv_monitor:
  assumes "ctl_inv cfg s"
  shows "ctl_inv cfg (monitor_step cfg s)"
  using assms by (simp add: ctl_inv_def monitor_step_def Let_def)

lemma ctl_inv_worker:
  assumes inv: "ctl_inv cfg s" and st: "step cfg (Worker j) s = Some s'"
  shows "ctl_inv cfg s'"
proof -
  from st obtain ev rest s1 where j: "j < length (workers s)"
    and w: "workers s ! j = ev # rest"
    and ap: "apply_event cfg ev s = Some s1"
    and s': "s' = s1\<lparr>workers := (workers s)[j := rest]\<rparr>"
    and live: "\<not> exited s"
    by (rule worker_step_cases)
  note eff = apply_event_effect [OF ap]
  let ?ws = "(workers s)[j := rest]"
  have len: "length ?ws = length (workers s)" by simp
  have pc: "pc s' = pc s" unfolding s' using eff(1) by simp
  have not_after: "\<not> after_wait (pc s)"
  proof
    assume "after_wait (pc s)"
    with inv have "\<forall>w \<in> set (workers s). w = []" by (simp add: ctl_inv_def)
    with j w show False by (metis list.distinct(1) nth_mem)
  qed
  have not_done: "pc s \<noteq> M_Done" using live by (simp add: exited_def)
  have c1: "pc_ok (length (batches cfg)) (length (workers s')) (pc s')"
    unfolding s' using inv eff(1) by (simp add: ctl_inv_def)
  have c2: "\<forall>i < length (workers s'). \<exists>k. workers s' ! i = drop k (worker (fetchBatch cfg i))"
  proof (intro allI impI)
    fix i assume i: "i < length (workers s')"
    then have i': "i < length (workers s)" unfolding s' by simp
    with inv obtain k where k: "workers s ! i = drop k (worker (fetchBatch cfg i))"
      by (auto simp add: ctl_inv_def)
    show "\<exists>k. workers s' ! i = drop k (worker (fetchBatch cfg i))"
    proof (cases "i = j")
      case True
      with k w have "rest = drop (Suc k) (worker (fetchBatch cfg i))"
        by (metis drop_Suc list.sel(3) tl_drop)
      then show ?thesis unfolding s' using True j by auto
    next
      case False
      then show ?thesis unfolding s' using k i' by auto
    qed
  qed
  have c3: "sem s' = slots (workers s') + sem_held (pc s')"
    using inv eff(1,3) slots_update [OF j w] unfolding s' by (simp add: ctl_inv_def)
  have c4: "sem s' \<le> maxWorkers"
    using inv eff(3) unfolding s' by (simp add: ctl_inv_def)
  have c5: "wg s' = int (joins (workers s')) + int (wg_held (pc s'))"
    using inv eff(1,4) joins_update [OF j w] unfolding s' by (simp add: ctl_inv_def)
  have c6: "completed s' + int (adds (workers s')) = int (adds (started cfg (length (workers s'))))"
    using inv eff(5) adds_update [OF j w] unfolding s' by (simp add: ctl_inv_def)
  have "mset (results s) + mset (deposits (workers s)) =
          mset (deposits (started cfg (length (workers s))))"
    using inv by (simp add: ctl_inv_def)
  then have c7: "mset (results s') + mset (deposits (workers s')) =
      mset (deposits (started cfg (length (workers s'))))"
    using eff(6) deposits_update [OF j w] unfolding s' by (simp add: ac_simps)
  have c8: "after_wait (pc s') \<longrightarrow> (\<forall>w \<in> set (workers s'). w = [])"
    using not_after pc by simp
  have c9: "pc s' = M_Done \<longrightarrow> tsv_file s' = Some (write_results (unicode cfg) (results s'))"
    using not_done pc by simp
  from c1 c2 c3 c4 c5 c6 c7 c8 c9 show ?thesis unfolding ctl_inv_def by blast
qed

lemma ctl_inv_step:
  assumes "ctl_inv cfg s" and "step cfg g s = Some s'"
  shows "ctl_inv cfg s'"
proof (cases g)
  case Main
  with assms show ?thesis by (auto intro: ctl_inv_main)
next
  case Monitor
  with assms show ?thesis by (auto intro: ctl_inv_monitor split: if_splits)
next
  case (Worker j)
  with assms show ?thesis by (auto intro: ctl_inv_worker)
qed

lemma ctl_inv_run:
  "ctl_inv cfg s \<Longrightarrow> run cfg sched s = Some s' \<Longrightarrow> ctl_inv cfg s'"
proof (induction sched arbitrary: s)
  case Nil
  then show ?case by simp
next
  case (Cons g gs)
  from Cons.prems(2) obtain s1 where s1: "step cfg g s = Some s1" "run cfg gs s1 = Some s'"
    by (cases "step cfg g s") auto
  from Cons.prems(1) s1(1) have "ctl_inv cfg s1" by (rule ctl_inv_step)
  then show ?case using s1(2) by (rule Cons.IH)
qed

lemma ctl_inv_reachable: "run cfg sched init = Some s \<Longrightarrow> ctl_inv cfg s"
  using ctl_inv_init by (rule ctl_inv_run)

lemma filter_le_sum:
  fixes f :: "'a \<Rightarrow> nat"
  assumes "\<forall>w \<in> set ws. P w \<longrightarrow> 1 \<le> f w"
  shows "length (filter P ws) \<le> sum_list (map f ws)"
  using assms by (induction ws) auto

lemma filter_mono_length:
  assumes "\<forall>w \<in> set ws. P w \<longrightarrow> Q w"
  shows "length (filter P ws) \<le> length (filter Q ws)"
  using assms by (induction ws) auto

lemma count_list_pos: "x \<in> set xs \<Longrightarrow> 1 \<le> count_list xs x"
  by (induction xs) auto

lemma in_flight_le_slots: "in_flight s \<le> slots (workers s)"
  unfolding in_flight_def slots_def
  by (rule filter_le_sum) (auto dest: count_list_pos)

lemma at_fetch_holds_slot:
  assumes "w = drop k (worker fetch)" and "at_fetch w"
  shows "RecvSem \<in> set w"
  using worker_suffix [of k fetch] assms by auto

text \<open>
  C9. In every state that a run can reach, under every interleaving of the goroutines, the
  number of workers that hold a slot of the semaphore is at most the number of tokens in the
  channel \<open>sem\<close>, which is at most \<open>maxWorkers = 10\<close>. A worker whose next action is a network
  fetch holds a slot, so at most 10 workers execute fetches at the same time.
\<close>

theorem concurrency_bound:
  assumes "run cfg sched init = Some s"
  shows "fetching s \<le> in_flight s \<and> in_flight s \<le> sem s \<and> sem s \<le> maxWorkers"
proof -
  from assms have inv: "ctl_inv cfg s" by (rule ctl_inv_reachable)
  have "\<forall>w \<in> set (workers s). at_fetch w \<longrightarrow> RecvSem \<in> set w"
  proof (intro ballI impI)
    fix w assume "w \<in> set (workers s)" and f: "at_fetch w"
    then obtain j where "j < length (workers s)" "workers s ! j = w"
      by (auto simp add: in_set_conv_nth)
    with inv obtain k where "w = drop k (worker (fetchBatch cfg j))"
      by (auto simp add: ctl_inv_def)
    then show "RecvSem \<in> set w" using f by (rule at_fetch_holds_slot)
  qed
  then have "fetching s \<le> in_flight s"
    unfolding fetching_def in_flight_def by (rule filter_mono_length)
  moreover have "in_flight s \<le> sem s"
    using in_flight_le_slots [of s] inv by (simp add: ctl_inv_def)
  moreover have "sem s \<le> maxWorkers" using inv by (simp add: ctl_inv_def)
  ultimately show ?thesis by simp
qed

theorem concurrency_bound_witness:
  "\<exists>s. run eleven_failing_batches (replicate 31 Main) init = Some s \<and>
       fetching s = 10 \<and> in_flight s = 10 \<and> sem s = 10 \<and>
       fetching s \<le> in_flight s \<and> in_flight s \<le> sem s \<and> sem s \<le> maxWorkers \<and>
       step eleven_failing_batches Main s = None"
proof -
  have "map_option (\<lambda>s. (fetching s, in_flight s, sem s, step eleven_failing_batches Main s))
          (run eleven_failing_batches (replicate 31 Main) init) = Some (10, 10, 10, None)"
    by code_simp
  then obtain s where s: "run eleven_failing_batches (replicate 31 Main) init = Some s"
    and v: "fetching s = 10" "in_flight s = 10" "sem s = 10"
      "step eleven_failing_batches Main s = None"
    by auto
  from concurrency_bound [OF s] s v show ?thesis by blast
qed

subsection \<open>The Progress Reporter and the completed counter\<close>


text \<open>
  C1 fails on the code. With one batch whose fetch fails at every attempt, the following run
  ends with every worker terminated (the wait group at 0, \<open>main\<close> returned) and the counter
  \<open>completed\<close> still at 0, where the number of batches is 1: the increment of line 357 is
  only on the path of a successful fetch. The monitor then never sees \<open>done \<ge> total\<close>.
\<close>

theorem completed_skips_failed_batch:
  "map_option (\<lambda>s. (pc s, workers s, wg s, completed s, results s, stderr s, mon_done s))
     (run one_failing_batch one_failing_schedule init) =
     Some (M_Done, [[]], 0, 0, [],
           [Retrying_batch_after 64, Failed_batch_after_retries (Some ''connection reset'')],
           False) \<and>
   total one_failing_batch = 1"
  by code_simp



lemma pc_ok_le: "pc_ok N n p \<Longrightarrow> n \<le> N"
  by (cases p) simp_all











subsection \<open>Permanent failure of a batch and the end of the run\<close>

lemma foldl_writePackage:
  "foldl (\<lambda>tsv pkg. writePackage U pkg tsv) tsv pkgs =
     tsv @ concat (map (\<lambda>pkg. concat (map (Sprintf row_format) (package_rows U pkg))) pkgs)"
  by (induction pkgs arbitrary: tsv) (simp_all add: writePackage_rows)

lemma foldl_pkgSets:
  "foldl (\<lambda>tsv pkgSet. foldl (\<lambda>tsv pkg. writePackage U pkg tsv) tsv (Packages pkgSet)) tsv rs =
     tsv @ concat (map (pkgSet_lines U) rs)"
  by (induction rs arbitrary: tsv) (simp_all add: foldl_writePackage pkgSet_lines_def)

lemma write_results_lines:
  "write_results U rs = header_line @ concat (map (pkgSet_lines U) rs)"
  by (simp add: write_results_def foldl_pkgSets WriteString_def)

lemma deposits_started_le: "length (deposits (started cfg n)) \<le> n"
proof (induction n)
  case 0
  show ?case by (simp add: deposits_def started_def)
next
  case (Suc n)
  have "length (sends (worker (fetchBatch cfg n))) \<le> 1" by (rule worker_counts)
  with Suc show ?case by (simp add: started_Suc deposits_snoc)
qed

lemma sends_le_deposits:
  "j < length ws \<Longrightarrow> length (sends (ws ! j)) \<le> length (deposits ws)"
proof (induction ws arbitrary: j)
  case Nil
  then show ?case by simp
next
  case (Cons w ws)
  show ?case
  proof (cases j)
    case 0
    then show ?thesis by (simp add: deposits_def)
  next
    case (Suc j')
    with Cons.prems have "j' < length ws" by simp
    from Cons.IH [OF this] show ?thesis using Suc by (simp add: deposits_def)
  qed
qed

lemma nth_le_sum_list:
  fixes f :: "'a \<Rightarrow> nat"
  shows "j < length ws \<Longrightarrow> f (ws ! j) \<le> sum_list (map f ws)"
proof (induction ws arbitrary: j)
  case Nil
  then show ?case by simp
next
  case (Cons w ws)
  show ?case
  proof (cases j)
    case 0
    then show ?thesis by simp
  next
    case (Suc j')
    with Cons.prems have "j' < length ws" by simp
    from Cons.IH [OF this] show ?thesis using Suc by simp
  qed
qed

lemma sum_list_pos_nth:
  fixes f :: "'a \<Rightarrow> nat"
  assumes "0 < sum_list (map f ws)"
  shows "\<exists>j < length ws. 0 < f (ws ! j)"
proof -
  from assms obtain w where "w \<in> set ws" "0 < f w"
    by (induction ws) (auto split: if_splits)
  then show ?thesis by (auto simp add: in_set_conv_nth)
qed

lemma results_room:
  assumes inv: "ctl_inv cfg s" and j: "j < length (workers s)"
    and w: "workers s ! j = Send pkgSet # rest"
  shows "length (results s) < length (batches cfg)"
proof -
  from inv have "mset (results s) + mset (deposits (workers s)) =
      mset (deposits (started cfg (length (workers s))))"
    by (simp add: ctl_inv_def)
  then have "size (mset (results s) + mset (deposits (workers s))) =
      size (mset (deposits (started cfg (length (workers s)))))"
    by simp
  then have eq: "length (results s) + length (deposits (workers s)) =
      length (deposits (started cfg (length (workers s))))"
    by simp
  have "length (sends (workers s ! j)) \<le> length (deposits (workers s))"
    using j by (rule sends_le_deposits)
  then have "1 \<le> length (deposits (workers s))" using w by simp
  moreover have "length (deposits (started cfg (length (workers s)))) \<le> length (workers s)"
    by (rule deposits_started_le)
  moreover from inv have "length (workers s) \<le> length (batches cfg)"
    by (auto simp add: ctl_inv_def intro: pc_ok_le)
  ultimately show ?thesis using eq by linarith
qed

lemma worker_enabled:
  assumes inv: "ctl_inv cfg s" and j: "j < length (workers s)"
    and w: "workers s ! j = ev # rest" and live: "\<not> exited s"
  shows "\<exists>s'. step cfg (Worker j) s = Some s'"
proof -
  have "\<exists>s1. apply_event cfg ev s = Some s1"
  proof (cases ev)
    case (Send pkgSet)
    with results_room [OF inv j] w show ?thesis by simp
  next
    case RecvSem
    have "count_list (workers s ! j) RecvSem \<le> slots (workers s)"
      unfolding slots_def using j by (rule nth_le_sum_list)
    with w RecvSem inv have "0 < sem s" by (simp add: ctl_inv_def)
    with RecvSem show ?thesis by simp
  qed simp_all
  then obtain s1 where "apply_event cfg ev s = Some s1" by blast
  with j w live show ?thesis by simp
qed

lemma busy_worker_enabled:
  fixes f :: "event list \<Rightarrow> nat"
  assumes inv: "ctl_inv cfg s" and live: "\<not> exited s"
    and pos: "0 < sum_list (map f (workers s))" and f: "f [] = 0"
  shows "\<exists>j s'. step cfg (Worker j) s = Some s'"
proof -
  from sum_list_pos_nth [OF pos] obtain j where j: "j < length (workers s)"
    and "0 < f (workers s ! j)" by blast
  with f obtain ev rest where "workers s ! j = ev # rest"
    by (cases "workers s ! j") auto
  from worker_enabled [OF inv j this live] show ?thesis by blast
qed

text \<open>No deadlock: while \<open>main\<close> has not returned, \<open>main\<close> or a worker can move.\<close>

lemma progress_step:
  assumes inv: "ctl_inv cfg s" and live: "\<not> exited s"
  shows "\<exists>g s'. g \<noteq> Monitor \<and> step cfg g s = Some s'"
proof -
  have main: "main_step cfg s = Some s' \<Longrightarrow> ?thesis" for s'
    by (intro exI [of _ Main] exI [of _ s']) simp
  have work: "\<exists>j s'. step cfg (Worker j) s = Some s' \<Longrightarrow> ?thesis"
  proof -
    assume "\<exists>j s'. step cfg (Worker j) s = Some s'"
    then obtain j s' where "step cfg (Worker j) s = Some s'" by blast
    moreover have "Worker j \<noteq> Monitor" by simp
    ultimately show ?thesis by blast
  qed
  show ?thesis
  proof (cases "pc s")
    case (M_Loop i)
    then show ?thesis by (cases "i < length (batches cfg)") (auto intro: main)
  next
    case (M_SendSem i)
    show ?thesis
    proof (cases "sem s < maxWorkers")
      case True
      with M_SendSem show ?thesis by (auto intro: main)
    next
      case False
      with inv M_SendSem have "0 < slots (workers s)"
        by (simp add: ctl_inv_def maxWorkers_def)
      then have "0 < sum_list (map (\<lambda>w. count_list w RecvSem) (workers s))"
        by (simp add: slots_def)
      from busy_worker_enabled [OF inv live this]
      have "\<exists>j s'. step cfg (Worker j) s = Some s'" by simp
      then show ?thesis by (rule work)
    qed
  next
    case (M_Go i)
    then show ?thesis by (auto intro: main)
  next
    case M_Wait
    show ?thesis
    proof (cases "wg s = 0")
      case True
      with M_Wait show ?thesis by (auto intro: main)
    next
      case False
      with inv M_Wait have "0 < joins (workers s)" by (simp add: ctl_inv_def)
      then have "0 < sum_list (map (\<lambda>w. count_list w WgDone) (workers s))"
        by (simp add: joins_def)
      from busy_worker_enabled [OF inv live this]
      have "\<exists>j s'. step cfg (Worker j) s = Some s'" by simp
      then show ?thesis by (rule work)
    qed
  next
    case M_Finish
    then show ?thesis by (auto intro: main)
  next
    case M_Close
    then show ?thesis by (auto intro: main)
  next
    case M_Create
    then show ?thesis by (cases "os_Create_ok cfg") (auto intro: main)
  next
    case M_Done
    with live show ?thesis by (simp add: exited_def)
  next
    case M_Fatal
    with live show ?thesis by (simp add: exited_def)
  qed
qed

lemma steps_left_worker:
  assumes st: "step cfg (Worker j) s = Some s'"
  shows "steps_left cfg s' < steps_left cfg s"
proof -
  from st obtain ev rest s1 where j: "j < length (workers s)"
    and w: "workers s ! j = ev # rest"
    and ap: "apply_event cfg ev s = Some s1"
    and s': "s' = s1\<lparr>workers := (workers s)[j := rest]\<rparr>"
    by (rule worker_step_cases)
  note eff = apply_event_effect [OF ap]
  have "sum_list (map length ((workers s)[j := rest])) + length (workers s ! j) =
          sum_list (map length (workers s)) + length rest"
    using j by (rule sum_list_map_update)
  then have "sum_list (map length ((workers s)[j := rest])) < sum_list (map length (workers s))"
    using w by simp
  then show ?thesis unfolding steps_left_def s' using eff(1) by simp
qed

lemma steps_left_main:
  assumes inv: "ctl_inv cfg s" and st: "main_step cfg s = Some s'"
  shows "steps_left cfg s' < steps_left cfg s"
proof (cases "pc s")
  case (M_Loop i)
  with inv have "i \<le> length (batches cfg)" by (simp add: ctl_inv_def)
  with M_Loop st show ?thesis by (auto simp add: steps_left_def split: if_splits)
next
  case (M_SendSem i)
  with st show ?thesis by (auto simp add: steps_left_def split: if_splits)
next
  case (M_Go i)
  with inv have i: "i = length (workers s)" "i < length (batches cfg)"
    by (simp_all add: ctl_inv_def)
  then have "[length (workers s)..<length (batches cfg)] =
      i # [Suc i..<length (batches cfg)]"
    by (simp add: upt_conv_Cons)
  with M_Go st i show ?thesis by (auto simp add: steps_left_def)
next
  case M_Wait
  with st show ?thesis by (auto simp add: steps_left_def split: if_splits)
next
  case M_Finish
  with st show ?thesis by (auto simp add: steps_left_def)
next
  case M_Close
  with st show ?thesis by (auto simp add: steps_left_def)
next
  case M_Create
  with st show ?thesis by (auto simp add: steps_left_def split: if_splits)
next
  case M_Done
  with st show ?thesis by simp
next
  case M_Fatal
  with st show ?thesis by simp
qed

lemma steps_left_step:
  assumes "ctl_inv cfg s" and "g \<noteq> Monitor" and "step cfg g s = Some s'"
  shows "steps_left cfg s' < steps_left cfg s"
proof (cases g)
  case Main
  with assms show ?thesis by (auto intro: steps_left_main)
next
  case Monitor
  with assms show ?thesis by simp
next
  case (Worker j)
  with assms show ?thesis by (auto intro: steps_left_worker simp del: step.simps)
qed

text \<open>From every state that satisfies the invariant, some schedule leads \<open>main\<close> to its end.\<close>

lemma can_finish:
  "ctl_inv cfg s \<Longrightarrow> \<exists>sched s'. run cfg sched s = Some s' \<and> exited s'"
proof (induction "steps_left cfg s" arbitrary: s rule: less_induct)
  case less
  show ?case
  proof (cases "exited s")
    case True
    then have "run cfg [] s = Some s \<and> exited s" by simp
    then show ?thesis by blast
  next
    case False
    from progress_step [OF less.prems False] obtain g s1
      where g: "g \<noteq> Monitor" and st: "step cfg g s = Some s1" by blast
    have smaller: "steps_left cfg s1 < steps_left cfg s"
      using less.prems g st by (rule steps_left_step)
    have "ctl_inv cfg s1" using less.prems st by (rule ctl_inv_step)
    from less.hyps [OF smaller this] obtain sched s'
      where "run cfg sched s1 = Some s'" "exited s'" by blast
    with st have "run cfg (g # sched) s = Some s' \<and> exited s'" by simp
    then show ?thesis by blast
  qed
qed

lemma no_fatal_step:
  assumes ok: "os_Create_ok cfg" and nf: "pc s \<noteq> M_Fatal" and st: "step cfg g s = Some s'"
  shows "pc s' \<noteq> M_Fatal"
proof (cases g)
  case Main
  with st have "main_step cfg s = Some s'" by simp
  with ok nf show ?thesis by (cases "pc s") (auto split: if_splits)
next
  case Monitor
  with st nf show ?thesis by (auto simp add: monitor_step_def Let_def split: if_splits)
next
  case (Worker j)
  with st have "step cfg (Worker j) s = Some s'" by simp
  then obtain ev rest s1 where ap: "apply_event cfg ev s = Some s1"
    and s': "s' = s1\<lparr>workers := (workers s)[j := rest]\<rparr>"
    by (rule worker_step_cases)
  from apply_event_effect(1) [OF ap] nf show ?thesis unfolding s' by simp
qed

lemma no_fatal_run:
  "os_Create_ok cfg \<Longrightarrow> pc s \<noteq> M_Fatal \<Longrightarrow> run cfg sched s = Some s' \<Longrightarrow> pc s' \<noteq> M_Fatal"
proof (induction sched arbitrary: s)
  case Nil
  then show ?case by simp
next
  case (Cons g gs)
  from Cons.prems(3) obtain s1 where s1: "step cfg g s = Some s1" "run cfg gs s1 = Some s'"
    by (cases "step cfg g s") auto
  have "pc s1 \<noteq> M_Fatal" using Cons.prems(1,2) s1(1) by (rule no_fatal_step)
  with Cons.prems(1) show ?case using s1(2) by (rule Cons.IH)
qed

lemma deposits_all_done: "\<forall>w \<in> set ws. w = [] \<Longrightarrow> deposits ws = []"
  by (induction ws) (simp_all add: deposits_def)

lemma results_at_end:
  assumes inv: "ctl_inv cfg s" and "pc s = M_Done"
  shows "mset (results s) = mset (deposits (started cfg (length (batches cfg))))"
    and "tsv_file s = Some (header_line @ concat (map (pkgSet_lines (unicode cfg)) (results s)))"
proof -
  from assms have fin: "\<forall>w \<in> set (workers s). w = []" and n: "length (workers s) = length (batches cfg)"
    by (simp_all add: ctl_inv_def)
  from inv have "mset (results s) + mset (deposits (workers s)) =
      mset (deposits (started cfg (length (workers s))))"
    by (simp add: ctl_inv_def)
  then show "mset (results s) = mset (deposits (started cfg (length (batches cfg))))"
    using deposits_all_done [OF fin] n by simp
  from assms show "tsv_file s = Some (header_line @ concat (map (pkgSet_lines (unicode cfg)) (results s)))"
    by (simp add: ctl_inv_def write_results_lines)
qed

text \<open>A batch fetched at attempt \<open>a\<close>, after failures only, deposits what that attempt returned.\<close>

lemma sends_first_success:
  assumes "a < maxRetries" and "\<forall>j < a. isl (fetch j)" and "fetch a = Inr pkgSet"
  shows "sends (worker fetch) = [pkgSet]"
proof -
  let ?g = "\<lambda>j. before_attempt j @ [Fetch j]"
  have at: "worker_loop fetch a err = before_attempt a @ [Fetch a, Send pkgSet, AddCompleted]" for err
    using assms(1,3) by (simp add: worker_loop_step)
  show ?thesis
  proof (cases a)
    case 0
    with at [of None] show ?thesis by (simp add: worker_def)
  next
    case (Suc n)
    with assms have "0 \<le> n" "n < maxRetries" "\<forall>j. 0 \<le> j \<and> j \<le> n \<longrightarrow> isl (fetch j)"
      by auto
    from worker_loop_failures [OF this, of None]
    have "worker_loop fetch 0 None =
        concat (map ?g [0..<Suc n]) @ worker_loop fetch a (Some (projl (fetch n)))"
      using Suc by simp
    then show ?thesis
      unfolding worker_def at using sends_attempts [of "Suc n"] by (simp del: upt_Suc)
  qed
qed

lemma deposits_started_mem:
  assumes "i < n"
  shows "set (sends (worker (fetchBatch cfg i))) \<subseteq> set (deposits (started cfg n))"
  using assms by (auto simp add: deposits_def started_def)

text \<open>
  C7. Let the fetch of a batch fail at every attempt. Its worker fetches exactly
  \<open>maxRetries = 7\<close> times (attempts 0 to 6), deposits no package set, and writes to standard
  error the warning with the error of the last attempt; it ends like any other worker, and
  \<open>main\<close> never reaches the fatal exit (the output file can be created). From every state
  the run can reach, some schedule leads \<open>main\<close> to its end. At the end the file is the header
  followed by the lines of the package sets deposited, which are, up to order, those of
  the batches fetched within the budget: the package set of every successful batch is there.
\<close>

theorem failed_batch_dropped:
  assumes run: "run cfg sched init = Some s"
    and b: "b < length (batches cfg)"
    and fails: "\<forall>a < maxRetries. isl (fetchBatch cfg b a)"
    and create: "os_Create_ok cfg"
  shows "fetches (worker (fetchBatch cfg b)) = [0..<maxRetries] \<and>
         length (fetches (worker (fetchBatch cfg b))) = 7 \<and>
         sends (worker (fetchBatch cfg b)) = [] \<and>
         prints (worker (fetchBatch cfg b)) =
           [Retrying_batch_after 64,
            Failed_batch_after_retries (Some (projl (fetchBatch cfg b (maxRetries - 1))))] \<and>
         pc s \<noteq> M_Fatal \<and>
         (\<exists>sched' s'. run cfg sched' s = Some s' \<and> pc s' = M_Done) \<and>
         (pc s = M_Done \<longrightarrow>
            tsv_file s =
              Some (header_line @ concat (map (pkgSet_lines (unicode cfg)) (results s))) \<and>
            mset (results s) = mset (deposits (started cfg (length (batches cfg)))) \<and>
            (\<forall>i a pkgSet. i < length (batches cfg) \<and> a < maxRetries \<and>
               (\<forall>j < a. isl (fetchBatch cfg i j)) \<and> fetchBatch cfg i a = Inr pkgSet \<longrightarrow>
               pkgSet \<in> set (results s)))"
proof -
  note w = worker_all_fail_facts [OF fails]
  have attempts: "length (fetches (worker (fetchBatch cfg b))) = 7"
    unfolding w(1) by (simp add: maxRetries_def)
  have inv: "ctl_inv cfg s" using run by (rule ctl_inv_reachable)
  have "pc init \<noteq> M_Fatal" by (simp add: init_def)
  with create have nf: "pc s \<noteq> M_Fatal" using run by (rule no_fatal_run)
  from can_finish [OF inv] obtain sched' s' where
    fin: "run cfg sched' s = Some s'" "exited s'" by blast
  have "pc s' \<noteq> M_Fatal" using create nf fin(1) by (rule no_fatal_run)
  with fin(2) have "pc s' = M_Done" by (simp add: exited_def)
  with fin(1) have completes: "\<exists>sched' s'. run cfg sched' s = Some s' \<and> pc s' = M_Done"
    by blast
  have written: "pc s = M_Done \<longrightarrow>
            tsv_file s =
              Some (header_line @ concat (map (pkgSet_lines (unicode cfg)) (results s))) \<and>
            mset (results s) = mset (deposits (started cfg (length (batches cfg)))) \<and>
            (\<forall>i a pkgSet. i < length (batches cfg) \<and> a < maxRetries \<and>
               (\<forall>j < a. isl (fetchBatch cfg i j)) \<and> fetchBatch cfg i a = Inr pkgSet \<longrightarrow>
               pkgSet \<in> set (results s))"
  proof
    assume d: "pc s = M_Done"
    note r = results_at_end [OF inv d]
    have "pkgSet \<in> set (results s)"
      if "i < length (batches cfg)" "a < maxRetries" "\<forall>j < a. isl (fetchBatch cfg i j)"
        "fetchBatch cfg i a = Inr pkgSet" for i a pkgSet
    proof -
      from that(2-4) have "sends (worker (fetchBatch cfg i)) = [pkgSet]"
        by (rule sends_first_success)
      with deposits_started_mem [OF that(1), of cfg]
      have "pkgSet \<in> set (deposits (started cfg (length (batches cfg))))" by simp
      then have "pkgSet \<in># mset (deposits (started cfg (length (batches cfg))))" by simp
      then have "pkgSet \<in># mset (results s)" unfolding r(1) .
      then show ?thesis by simp
    qed
    with r show "tsv_file s =
              Some (header_line @ concat (map (pkgSet_lines (unicode cfg)) (results s))) \<and>
            mset (results s) = mset (deposits (started cfg (length (batches cfg)))) \<and>
            (\<forall>i a pkgSet. i < length (batches cfg) \<and> a < maxRetries \<and>
               (\<forall>j < a. isl (fetchBatch cfg i j)) \<and> fetchBatch cfg i a = Inr pkgSet \<longrightarrow>
               pkgSet \<in> set (results s))"
      by blast
  qed
  from w(1) attempts w(2) w(4) nf completes written show ?thesis by blast
qed

theorem failed_batch_dropped_witness:
  "\<exists>s. run mixed_batches mixed_schedule init = Some s \<and>
       0 < length (batches mixed_batches) \<and>
       list_all (\<lambda>a. isl (fetchBatch mixed_batches 0 a)) [0..<maxRetries] \<and>
       os_Create_ok mixed_batches \<and>
       fetches (worker (fetchBatch mixed_batches 0)) = [0, 1, 2, 3, 4, 5, 6] \<and>
       sends (worker (fetchBatch mixed_batches 0)) = [] \<and>
       pc s = M_Done \<and>
       results s = [example_pkgSet] \<and>
       stderr s = [Retrying_batch_after 64,
                   Failed_batch_after_retries (Some ''connection reset'')] \<and>
       tsv_file s = Some (header_line @ pkgSet_lines no_unicode example_pkgSet) \<and>
       example_pkgSet \<in> set (results s)"
proof -
  have "map_option (\<lambda>s. (pc s, results s, stderr s))
          (run mixed_batches mixed_schedule init) =
        Some (M_Done, [example_pkgSet],
              [Retrying_batch_after 64, Failed_batch_after_retries (Some ''connection reset'')])"
    by code_simp
  then obtain s where s: "run mixed_batches mixed_schedule init = Some s"
    and v: "pc s = M_Done" "results s = [example_pkgSet]"
      "stderr s = [Retrying_batch_after 64, Failed_batch_after_retries (Some ''connection reset'')]"
    by auto
  have b: "0 < length (batches mixed_batches)" by (simp add: mixed_batches_def)
  have f: "\<forall>a < maxRetries. isl (fetchBatch mixed_batches 0 a)"
    by (simp add: mixed_batches_def always_fails_def)
  then have f': "list_all (\<lambda>a. isl (fetchBatch mixed_batches 0 a)) [0..<maxRetries]"
    by (simp add: list_all_iff)
  have c: "os_Create_ok mixed_batches" by (simp add: mixed_batches_def)
  have u: "unicode mixed_batches = no_unicode" by (simp add: mixed_batches_def)
  have m: "[0..<maxRetries] = [0, 1, 2, 3, 4, 5, 6]" by code_simp
  from failed_batch_dropped [OF s b f c] v u m have
    "fetches (worker (fetchBatch mixed_batches 0)) = [0, 1, 2, 3, 4, 5, 6]"
    "sends (worker (fetchBatch mixed_batches 0)) = []"
    "tsv_file s = Some (header_line @ pkgSet_lines no_unicode example_pkgSet)"
    by simp_all
  with s b f' c v show ?thesis by simp
qed

subsection \<open>The counter at the end of the run\<close>

lemma adds_started_deposits: "adds (started cfg n) = length (deposits (started cfg n))"
proof (induction n)
  case 0
  show ?case by (simp add: adds_def deposits_def started_def)
next
  case (Suc n)
  have "length (sends (worker (fetchBatch cfg n))) =
          count_list (worker (fetchBatch cfg n)) AddCompleted"
    using worker_loop_events [of "fetchBatch cfg n" 0 None] by (simp add: worker_def)
  with Suc show ?case by (simp add: started_Suc adds_snoc deposits_snoc)
qed

lemma adds_all_done: "\<forall>w \<in> set ws. w = [] \<Longrightarrow> adds ws = 0"
  by (induction ws) (simp_all add: adds_def)

text \<open>
  Once \<open>main\<close> has passed \<^verbatim>\<open>wg.Wait\<close>, the counter \<open>completed\<close> is the number of package sets
  deposited, that is the number of batches fetched within the budget, in every run.
\<close>

lemma completed_after_wait:
  assumes "run cfg sched init = Some s" and "after_wait (pc s)"
  shows "completed s = int (length (results s))"
    and "length (results s) = length (deposits (started cfg (length (batches cfg))))"
proof -
  from assms(1) have inv: "ctl_inv cfg s" by (rule ctl_inv_reachable)
  with assms(2) have fin: "\<forall>w \<in> set (workers s). w = []" by (simp add: ctl_inv_def)
  from inv assms(2) have n: "length (workers s) = length (batches cfg)"
    by (cases "pc s") (simp_all add: ctl_inv_def)
  from inv have "mset (results s) + mset (deposits (workers s)) =
      mset (deposits (started cfg (length (workers s))))"
    by (simp add: ctl_inv_def)
  then have "mset (results s) = mset (deposits (started cfg (length (batches cfg))))"
    using deposits_all_done [OF fin] n by simp
  then have "size (mset (results s)) = size (mset (deposits (started cfg (length (batches cfg)))))"
    by simp
  then show len: "length (results s) = length (deposits (started cfg (length (batches cfg))))"
    by simp
  from inv have "completed s + int (adds (workers s)) =
      int (adds (started cfg (length (workers s))))"
    by (simp add: ctl_inv_def)
  then show "completed s = int (length (results s))"
    using adds_all_done [OF fin] n len by (simp add: adds_started_deposits)
qed

end
